theory Spec2Isabelle
  imports Complex_Main "HOL-Library.Word"
begin

unbundle bit_operations_syntax

section \<open>Machine types\<close>

type_synonym u8 = "8 word"
type_synonym u16 = "16 word"
type_synonym u32 = "32 word"
type_synonym u64 = "64 word"

text \<open>
  \<open>InetSocketAddress\<close> of the simulator: an IPv4 address and a port. The default
  value \<open>InetSocketAddress(Ipv4Address::GetAny(), 0)\<close> is \<open>0.0.0.0:0\<close>.
\<close>

record InetSocketAddress =
  ipv4 :: u32
  port :: u16

definition AnyAddress :: InetSocketAddress where
  "AnyAddress = \<lparr>ipv4 = 0, port = 0\<rparr>"

section \<open>Request/response framing header (request_response_header.cc)\<close>

text \<open>
  The header holds \<open>m_seq\<close> (uint32), \<open>m_timestamp\<close> (a simulator time, kept as its
  signed 64-bit nanosecond count; the casts between int64 and uint64 in
  \<open>Serialize\<close>/\<open>Deserialize\<close> keep the 64 bits as they are), \<open>m_payloadSize\<close>
  (uint32) and \<open>m_l7Identifier\<close> (uint64).
\<close>

record RequestResponseHeader =
  m_seq :: u32
  m_timestamp :: u64
  m_payloadSize :: u32
  m_l7Identifier :: u64

text \<open>
  \<open>sizeof(m_seq) + sizeof(int64_t) + sizeof(m_payloadSize) + sizeof(m_l7Identifier)\<close>.
\<close>

definition GetSerializedSize :: nat where
  "GetSerializedSize = 4 + 8 + 4 + 8"

text \<open>
  The buffer iterator of the simulator library: \<open>WriteHtonU32\<close>/\<open>WriteHtonU64\<close>
  append the value in network byte order (most significant byte first);
  \<open>ReadNtohU32\<close>/\<open>ReadNtohU64\<close> read it back and advance the iterator. Reading
  past the end of the buffer is an error (\<open>None\<close>).
\<close>

definition WriteHtonU32 :: "u32 \<Rightarrow> u8 list" where
  "WriteHtonU32 w =
     [ucast (drop_bit 24 w), ucast (drop_bit 16 w), ucast (drop_bit 8 w), ucast w]"

definition WriteHtonU64 :: "u64 \<Rightarrow> u8 list" where
  "WriteHtonU64 w =
     [ucast (drop_bit 56 w), ucast (drop_bit 48 w), ucast (drop_bit 40 w),
      ucast (drop_bit 32 w), ucast (drop_bit 24 w), ucast (drop_bit 16 w),
      ucast (drop_bit 8 w), ucast w]"

fun ReadNtohU32 :: "u8 list \<Rightarrow> (u32 \<times> u8 list) option" where
  "ReadNtohU32 (a # b # c # d # rest) =
     Some (push_bit 24 (ucast a) OR push_bit 16 (ucast b) OR push_bit 8 (ucast c) OR ucast d,
           rest)"
| "ReadNtohU32 _ = None"

fun ReadNtohU64 :: "u8 list \<Rightarrow> (u64 \<times> u8 list) option" where
  "ReadNtohU64 (a # b # c # d # e # f # g # h # rest) =
     Some (push_bit 56 (ucast a) OR push_bit 48 (ucast b) OR push_bit 40 (ucast c) OR
           push_bit 32 (ucast d) OR push_bit 24 (ucast e) OR push_bit 16 (ucast f) OR
           push_bit 8 (ucast g) OR ucast h,
           rest)"
| "ReadNtohU64 _ = None"

definition Serialize :: "RequestResponseHeader \<Rightarrow> u8 list" where
  "Serialize h =
     WriteHtonU32 (m_seq h) @ WriteHtonU64 (m_timestamp h) @
     WriteHtonU32 (m_payloadSize h) @ WriteHtonU64 (m_l7Identifier h)"

text \<open>
  \<open>Deserialize\<close> reads the four fields in order and returns the header with the
  number of bytes read, \<open>GetSerializedSize()\<close>.
\<close>

definition Deserialize :: "u8 list \<Rightarrow> (RequestResponseHeader \<times> nat) option" where
  "Deserialize bs =
     (case ReadNtohU32 bs of None \<Rightarrow> None | Some (s, r1) \<Rightarrow>
      case ReadNtohU64 r1 of None \<Rightarrow> None | Some (t, r2) \<Rightarrow>
      case ReadNtohU32 r2 of None \<Rightarrow> None | Some (p, r3) \<Rightarrow>
      case ReadNtohU64 r3 of None \<Rightarrow> None | Some (l, r4) \<Rightarrow>
        Some (\<lparr>m_seq = s, m_timestamp = t, m_payloadSize = p, m_l7Identifier = l\<rparr>,
              GetSerializedSize))"

section \<open>Backend registry (load_balancer.h, load_balancer.cc)\<close>

record BackendInfo =
  address :: InetSocketAddress
  weight :: u32
  activeRequests :: u32

text \<open>The constructor \<open>BackendInfo(addr, w)\<close>: no active request.\<close>

definition mkBackendInfo :: "InetSocketAddress \<Rightarrow> u32 \<Rightarrow> BackendInfo" where
  "mkBackendInfo a w = \<lparr>address = a, weight = w, activeRequests = 0\<rparr>"

text \<open>
  \<open>FindBackendInfo\<close> is \<open>std::find_if\<close> on the address: the position of the first
  entry with that address, or \<open>None\<close> for the null pointer.
\<close>

fun FindBackendInfo :: "BackendInfo list \<Rightarrow> InetSocketAddress \<Rightarrow> nat option" where
  "FindBackendInfo [] a = None"
| "FindBackendInfo (b # bs) a =
     (if address b = a then Some 0
      else case FindBackendInfo bs a of None \<Rightarrow> None | Some i \<Rightarrow> Some (Suc i))"

text \<open>\<open>LoadBalancerApp::SetBackends\<close>: clear, then one fresh entry per pair.\<close>

definition SetBackends :: "(InetSocketAddress \<times> u32) list \<Rightarrow> BackendInfo list" where
  "SetBackends backends = map (\<lambda>(a, w). mkBackendInfo a w) backends"

text \<open>
  \<open>LoadBalancerApp::AddBackend(backendAddress, weight)\<close>: a new entry at the end
  when the address is unknown, otherwise only the weight of the entry found changes.
\<close>

definition AddBackend :: "InetSocketAddress \<Rightarrow> u32 \<Rightarrow> BackendInfo list \<Rightarrow> BackendInfo list" where
  "AddBackend backendAddress w m_backends =
     (case FindBackendInfo m_backends backendAddress of
        None \<Rightarrow> m_backends @ [mkBackendInfo backendAddress w]
      | Some i \<Rightarrow> m_backends[i := (m_backends ! i)\<lparr>weight := w\<rparr>])"

section \<open>Stream reassembly (load_balancer.cc, HandleClientRead and HandleBackendRead)\<close>

text \<open>
  The loop that follows the receive loop, the same on the client and on the backend
  side. \<open>buf\<close> is the rx buffer (\<open>currentRxBuffer\<close>), \<open>msgs\<close> the messages handed to
  processing so far, in order. \<open>headerSize\<close> and \<open>expectedTotalSize\<close> are
  \<open>uint32_t\<close>: the sum \<open>headerSize + expectedPayloadSize\<close> wraps around at
  \<open>2 ^ 32\<close>. The buffer size is a \<open>size_t\<close> and is compared as such. The loop need
  not end (a total size of 0 erases nothing), so it is a partial function: \<open>None\<close>
  stands for a run that never leaves the loop. The result is the list of messages
  handed over and the buffer that is left.
\<close>

partial_function (option) reassemble :: "u8 list \<Rightarrow> u8 list list \<Rightarrow> (u8 list list \<times> u8 list) option" where
  "reassemble buf msgs =
     (if \<not> GetSerializedSize \<le> length buf then Some (msgs, buf)
      else case Deserialize (take GetSerializedSize buf) of
          None \<Rightarrow> Some (msgs, buf)
        | Some (reqHeader, n) \<Rightarrow>
            if n \<noteq> GetSerializedSize then Some (msgs, buf)
            else
              let expectedPayloadSize = m_payloadSize reqHeader;
                  expectedTotalSize = unat ((of_nat GetSerializedSize :: u32) + expectedPayloadSize)
              in if expectedTotalSize \<le> length buf
                 then reassemble (drop expectedTotalSize buf) (msgs @ [take expectedTotalSize buf])
                 else Some (msgs, buf))"

section \<open>In-flight bookkeeping of the selectors\<close>

datatype selector = WRR | LeastRequest | Random | RingHash | Maglev | PeakEWMA

text \<open>
  The effect of \<open>NotifyRequestSent\<close> and \<open>NotifyRequestFinished\<close> on the shared
  registry \<open>m_backends\<close>. Only \<open>LeastRequestLoadBalancer\<close> touches
  \<open>activeRequests\<close> (\<open>info->activeRequests++\<close> on a \<open>uint32_t\<close>, and a decrement
  that stops at 0); the overrides of the weighted round-robin, random, ring-hash and
  Maglev selectors only log, and the Peak-EWMA one updates its own metric map
  (\<open>PeakEwma_NotifyRequestSent\<close> below), not the registry.
\<close>

fun NotifyRequestSent :: "selector \<Rightarrow> InetSocketAddress \<Rightarrow> BackendInfo list \<Rightarrow> BackendInfo list" where
  "NotifyRequestSent LeastRequest a m_backends =
     (case FindBackendInfo m_backends a of
        None \<Rightarrow> m_backends
      | Some i \<Rightarrow> m_backends[i := (m_backends ! i)
                     \<lparr>activeRequests := activeRequests (m_backends ! i) + 1\<rparr>])"
| "NotifyRequestSent WRR a m_backends = m_backends"
| "NotifyRequestSent Random a m_backends = m_backends"
| "NotifyRequestSent RingHash a m_backends = m_backends"
| "NotifyRequestSent Maglev a m_backends = m_backends"
| "NotifyRequestSent PeakEWMA a m_backends = m_backends"

fun NotifyRequestFinished :: "selector \<Rightarrow> InetSocketAddress \<Rightarrow> BackendInfo list \<Rightarrow> BackendInfo list" where
  "NotifyRequestFinished LeastRequest a m_backends =
     (case FindBackendInfo m_backends a of
        None \<Rightarrow> m_backends
      | Some i \<Rightarrow>
          if activeRequests (m_backends ! i) > 0
          then m_backends[i := (m_backends ! i)
                 \<lparr>activeRequests := activeRequests (m_backends ! i) - 1\<rparr>]
          else m_backends)"
| "NotifyRequestFinished WRR a m_backends = m_backends"
| "NotifyRequestFinished Random a m_backends = m_backends"
| "NotifyRequestFinished RingHash a m_backends = m_backends"
| "NotifyRequestFinished Maglev a m_backends = m_backends"
| "NotifyRequestFinished PeakEWMA a m_backends = m_backends"

text \<open>
  A run of notifications, as the proxy core issues them, applied to the registry in
  order.
\<close>

datatype notification = Sent InetSocketAddress | Finished InetSocketAddress

fun notify :: "selector \<Rightarrow> notification \<Rightarrow> BackendInfo list \<Rightarrow> BackendInfo list" where
  "notify sel (Sent a) m_backends = NotifyRequestSent sel a m_backends"
| "notify sel (Finished a) m_backends = NotifyRequestFinished sel a m_backends"

definition run_notifications :: "selector \<Rightarrow> notification list \<Rightarrow> BackendInfo list \<Rightarrow> BackendInfo list" where
  "run_notifications sel ns m_backends = foldl (\<lambda>bs n. notify sel n bs) m_backends ns"

text \<open>
  The requests in flight after a run are those for which \<open>NotifyRequestSent\<close> was
  called and \<open>NotifyRequestFinished\<close> not yet: \<open>in_flight_after ns a\<close> counts them
  for address \<open>a\<close>, \<open>total_in_flight ns\<close> for all addresses. \<open>matched pre ns\<close>: in
  the run \<open>ns\<close> that follows \<open>pre\<close>, every finish notification is for an address with
  a request still in flight.
\<close>

definition count_sent :: "notification list \<Rightarrow> InetSocketAddress \<Rightarrow> nat" where
  "count_sent ns a = length (filter (\<lambda>n. n = Sent a) ns)"

definition count_finished :: "notification list \<Rightarrow> InetSocketAddress \<Rightarrow> nat" where
  "count_finished ns a = length (filter (\<lambda>n. n = Finished a) ns)"

definition in_flight_after :: "notification list \<Rightarrow> InetSocketAddress \<Rightarrow> nat" where
  "in_flight_after ns a = count_sent ns a - count_finished ns a"

fun matched :: "notification list \<Rightarrow> notification list \<Rightarrow> bool" where
  "matched pre [] = True"
| "matched pre (Sent a # ns) = matched (pre @ [Sent a]) ns"
| "matched pre (Finished a # ns) =
     (count_finished pre a < count_sent pre a \<and> matched (pre @ [Finished a]) ns)"

definition sent_total :: "notification list \<Rightarrow> nat" where
  "sent_total ns =
     length (filter (\<lambda>n. case n of Sent a \<Rightarrow> True | Finished a \<Rightarrow> False) ns)"

definition finished_total :: "notification list \<Rightarrow> nat" where
  "finished_total ns =
     length (filter (\<lambda>n. case n of Sent a \<Rightarrow> False | Finished a \<Rightarrow> True) ns)"

definition total_in_flight :: "notification list \<Rightarrow> nat" where
  "total_in_flight ns = sent_total ns - finished_total ns"

definition sum_active :: "BackendInfo list \<Rightarrow> nat" where
  "sum_active m_backends = sum_list (map (\<lambda>b. unat (activeRequests b)) m_backends)"

text \<open>
  The count that the selector keeps for address \<open>a\<close>: \<open>activeRequests\<close> of the entry
  that \<open>FindBackendInfo\<close> returns, 0 if there is none.
\<close>

definition active_of :: "BackendInfo list \<Rightarrow> InetSocketAddress \<Rightarrow> nat" where
  "active_of m_backends a =
     (case FindBackendInfo m_backends a of
        None \<Rightarrow> 0
      | Some i \<Rightarrow> unat (activeRequests (m_backends ! i)))"

fun addr_of :: "notification \<Rightarrow> InetSocketAddress" where
  "addr_of (Sent a) = a"
| "addr_of (Finished a) = a"

section \<open>Integers held in a double\<close>

text \<open>
  A \<open>double\<close> has a significand of 53 bits. A conversion from an integer type, and a
  sum or product of doubles that hold non-negative integers, yield the exact integer
  when it has at most 53 bits and otherwise the nearest integer with 53 significant
  bits, a tie going to the even significand (the default rounding of IEEE 754).
  \<open>bitlen\<close> is the number of bits of a natural number and \<open>round53\<close> that rounding.
\<close>

fun bitlen :: "nat \<Rightarrow> nat" where
  "bitlen n = (if n = 0 then 0 else Suc (bitlen (n div 2)))"

declare bitlen.simps [simp del]

definition round53 :: "nat \<Rightarrow> nat" where
  "round53 n =
     (if n < 2 ^ 53 then n
      else
        let k = bitlen n - 53;
            q = n div 2 ^ k;
            r = n mod 2 ^ k
        in (if 2 * r > 2 ^ k \<or> (2 * r = 2 ^ k \<and> odd q) then q + 1 else q) * 2 ^ k)"

section \<open>Weighted round-robin (round_robin_load_balancer.cc)\<close>

text \<open>
  The selector state: \<open>m_currentIndex\<close> (\<open>size_t\<close>, always reduced modulo the
  number of backends, so a natural number), \<open>m_currentWeight\<close> (\<open>int32_t\<close>),
  \<open>m_maxWeight\<close> and \<open>m_gcdWeight\<close> (\<open>uint32_t\<close>). A 32-bit word stands for both
  the signed and the unsigned values: \<open>sint\<close> reads it as the \<open>int32_t\<close>, and the
  conversions between \<open>int32_t\<close> and \<open>uint32_t\<close> keep the bits.
\<close>

record wrr_state =
  m_currentIndex :: nat
  m_currentWeight :: u32
  m_maxWeight :: u32
  m_gcdWeight :: u32

text \<open>
  \<open>RecalculateWrrState\<close>: the loop over \<open>m_backends\<close> keeps the largest positive
  weight and the gcd of the positive weights (\<open>std::gcd\<close> on \<open>uint32_t\<close>).
\<close>

fun wrr_scan :: "BackendInfo list \<Rightarrow> u32 \<times> u32 \<times> bool \<times> nat \<Rightarrow> u32 \<times> u32 \<times> bool \<times> nat" where
  "wrr_scan [] acc = acc"
| "wrr_scan (b # bs) (maxWeight, calculatedGcd, firstPositiveWeightFound, positiveWeightCount) =
     (if weight b > 0
      then wrr_scan bs
             (max maxWeight (weight b),
              (if \<not> firstPositiveWeightFound then weight b
               else of_nat (gcd (unat calculatedGcd) (unat (weight b)))),
              True, Suc positiveWeightCount)
      else wrr_scan bs (maxWeight, calculatedGcd, firstPositiveWeightFound, positiveWeightCount))"

definition RecalculateWrrState :: "BackendInfo list \<Rightarrow> wrr_state" where
  "RecalculateWrrState m_backends =
     (if m_backends = []
      then \<lparr>m_currentIndex = 0, m_currentWeight = 0, m_maxWeight = 0, m_gcdWeight = 0\<rparr>
      else
        let (maxWeight, calculatedGcd, found, positiveWeightCount) =
              wrr_scan m_backends (0, 0, False, 0);
            (maxW, gcdW) =
              (if positiveWeightCount = 0 then (0, 0)
               else let g = (if calculatedGcd = 0 \<and> maxWeight > 0 then maxWeight
                             else calculatedGcd)
                    in (maxWeight, if g = 0 then 1 else g))
        in \<lparr>m_currentIndex = length m_backends - 1, m_currentWeight = 0,
            m_maxWeight = maxW, m_gcdWeight = gcdW\<rparr>)"

text \<open>
  The selection loop \<open>while (true)\<close> of \<open>ChooseBackend\<close>. It returns the chosen
  index (\<open>None\<close> inside for \<open>return false\<close>) with the state it leaves; the outer
  \<open>None\<close> stands for a loop that never returns.
  \<open>m_currentWeight - m_gcdWeight\<close> is computed in \<open>unsigned int\<close> and stored into
  the \<open>int32_t\<close>; the test \<open>m_currentWeight <= 0\<close> is signed; the comparison with
  the weight casts back to \<open>uint32_t\<close>.
\<close>

partial_function (option) wrr_loop :: "BackendInfo list \<Rightarrow> wrr_state \<Rightarrow> (nat option \<times> wrr_state) option" where
  "wrr_loop m_backends st =
     (let i = (m_currentIndex st + 1) mod length m_backends;
          st1 = st\<lparr>m_currentIndex := i\<rparr>;
          cw1 = (if i = 0 then m_currentWeight st1 - m_gcdWeight st1 else m_currentWeight st1);
          reset = (i = 0 \<and> sint cw1 \<le> 0);
          st2 = st1\<lparr>m_currentWeight := (if reset then m_maxWeight st1 else cw1)\<rparr>
      in if reset \<and> m_maxWeight st2 = 0 then Some (None, st2)
         else if \<not> i < length m_backends then Some (None, st2)
         else if weight (m_backends ! i) > 0 \<and> weight (m_backends ! i) \<ge> m_currentWeight st2
              then Some (Some i, st2)
              else wrr_loop m_backends st2)"

text \<open>
  \<open>WeightedRoundRobinLoadBalancer::ChooseBackend\<close>: the chosen address, if any, and
  the new selector state.
\<close>

definition WRR_ChooseBackend :: "BackendInfo list \<Rightarrow> wrr_state \<Rightarrow> (InetSocketAddress option \<times> wrr_state) option" where
  "WRR_ChooseBackend m_backends st =
     (if m_backends = [] then Some (None, st)
      else if m_maxWeight st = 0 then Some (Some (address (m_backends ! 0)), st)
      else case wrr_loop m_backends st of
             None \<Rightarrow> None
           | Some (None, st') \<Rightarrow> Some (None, st')
           | Some (Some i, st') \<Rightarrow> Some (Some (address (m_backends ! i)), st'))"

text \<open>
  The selection as the specification words it, on unbounded integers: advance
  \<open>i = (i + 1) mod n\<close>; when \<open>i\<close> wraps to 0 take \<open>gcd_w\<close> off \<open>cw\<close> and, if
  \<open>cw \<le> 0\<close>, set \<open>cw = max_w\<close>; accept \<open>backend[i]\<close> iff its weight is positive and
  at least \<open>cw\<close>. \<open>fuel\<close> bounds the number of steps; the result is the accepted
  index, which is also the new \<open>i\<close>, and the new \<open>cw\<close>.
\<close>

fun smooth_wrr_spec :: "nat \<Rightarrow> int list \<Rightarrow> int \<Rightarrow> int \<Rightarrow> nat \<times> int \<Rightarrow> (nat \<times> int) option" where
  "smooth_wrr_spec 0 ws max_w gcd_w (i, cw) = None"
| "smooth_wrr_spec (Suc fuel) ws max_w gcd_w (i, cw) =
     (let i' = (i + 1) mod length ws;
          cw1 = (if i' = 0 then cw - gcd_w else cw);
          cw2 = (if i' = 0 \<and> cw1 \<le> 0 then max_w else cw1)
      in if ws ! i' > 0 \<and> ws ! i' \<ge> cw2 then Some (i', cw2)
         else smooth_wrr_spec fuel ws max_w gcd_w (i', cw2))"

text \<open>
  Two backends whose weights stand 3 to 2, in units of \<open>2 ^ 30\<close>: 3221225472 and
  2147483648.
\<close>

definition heavy_backends :: "BackendInfo list" where
  "heavy_backends =
     [\<lparr>address = \<lparr>ipv4 = 1, port = 80\<rparr>, weight = 3221225472, activeRequests = 0\<rparr>,
      \<lparr>address = \<lparr>ipv4 = 2, port = 80\<rparr>, weight = 2147483648, activeRequests = 0\<rparr>]"

text \<open>
  The states of the selector between calls, when the largest weight fits an
  \<open>int32_t\<close>: the index is in range, \<open>m_maxWeight\<close> is the positive weight of some
  backend, \<open>m_gcdWeight\<close> is positive and at most \<open>m_maxWeight\<close>, and the marker is
  at most \<open>m_maxWeight\<close>.
\<close>

definition wrr_inv :: "BackendInfo list \<Rightarrow> wrr_state \<Rightarrow> bool" where
  "wrr_inv m_backends st \<longleftrightarrow>
     m_backends \<noteq> [] \<and> m_currentIndex st < length m_backends \<and>
     (\<exists>j < length m_backends. weight (m_backends ! j) = m_maxWeight st) \<and>
     0 < m_maxWeight st \<and> uint (m_maxWeight st) < 2 ^ 31 \<and>
     0 < m_gcdWeight st \<and> m_gcdWeight st \<le> m_maxWeight st \<and>
     m_currentWeight st \<le> m_maxWeight st"

section \<open>Maglev (maglev_load_balancer.cc)\<close>

text \<open>
  Faults of the C++ code that have no defined result: an integer division by zero and
  an access outside a vector.
\<close>

datatype fault = DivisionByZero | OutOfRange

text \<open>
  \<open>MaglevBuildEntry\<close>. \<open>offset\<close>, \<open>skip\<close>, \<open>nextIndexInPermutation\<close> and
  \<open>slotsFilledCount\<close> are \<open>uint64_t\<close>. \<open>targetWeightScore\<close> is a \<open>double\<close> that
  only ever holds rounded sums of \<open>maxWeight\<close>, which are non-negative integers; it is
  kept as the natural number the double holds.
\<close>

record MaglevBuildEntry =
  e_address :: InetSocketAddress
  e_weight :: u32
  e_offset :: u64
  e_skip :: u64
  nextIndexInPermutation :: u64
  targetWeightScore :: nat
  slotsFilledCount :: u64

definition mkMaglevBuildEntry :: "InetSocketAddress \<Rightarrow> u32 \<Rightarrow> u64 \<Rightarrow> u64 \<Rightarrow> MaglevBuildEntry" where
  "mkMaglevBuildEntry a w off sk =
     \<lparr>e_address = a, e_weight = w, e_offset = off, e_skip = sk,
      nextIndexInPermutation = 0, targetWeightScore = 0, slotsFilledCount = 0\<rparr>"

text \<open>
  The first loop of \<open>BuildTable\<close>. \<open>m_hasher\<close> is \<open>std::hash<std::string>\<close> and
  \<open>addr_str\<close> the printed form of an address (\<open>oss << backendInfo.address\<close>); both
  belong to the libraries and are parameters here. For every backend of positive
  weight the loop computes \<open>m_hasher(keyBase) % m_tableSize\<close> and
  \<open>(m_hasher(keySkip) % (m_tableSize - 1)) + 1\<close> on \<open>uint64_t\<close>; a remainder by 0 is
  the fault \<open>DivisionByZero\<close>.
\<close>

fun prepare_entries ::
  "(string \<Rightarrow> u64) \<Rightarrow> (InetSocketAddress \<Rightarrow> string) \<Rightarrow> u64 \<Rightarrow> BackendInfo list \<Rightarrow>
   fault + MaglevBuildEntry list" where
  "prepare_entries m_hasher addr_str m_tableSize [] = Inr []"
| "prepare_entries m_hasher addr_str m_tableSize (backendInfo # rest) =
     (if weight backendInfo = 0 then prepare_entries m_hasher addr_str m_tableSize rest
      else
        let keyBase = addr_str (address backendInfo);
            keySkip = keyBase @ ''_skip''
        in if m_tableSize = 0 then Inl DivisionByZero
           else if m_tableSize - 1 = 0 then Inl DivisionByZero
           else
             let offset = m_hasher keyBase mod m_tableSize;
                 skip = (m_hasher keySkip mod (m_tableSize - 1)) + 1
             in case prepare_entries m_hasher addr_str m_tableSize rest of
                  Inl f \<Rightarrow> Inl f
                | Inr es \<Rightarrow>
                    Inr (mkMaglevBuildEntry (address backendInfo) (weight backendInfo) offset skip # es))"

text \<open>\<open>maxWeight\<close> of the same loop: the largest weight among the entries kept.\<close>

definition max_weight :: "MaglevBuildEntry list \<Rightarrow> u32" where
  "max_weight es = foldl (\<lambda>m e. max m (e_weight e)) 0 es"

text \<open>
  \<open>operator<\<close> of the entries, for \<open>std::sort\<close>: by offset, then skip, then the
  printed address; \<open>str_less\<close> is the order of \<open>std::string\<close>, a parameter. The sort
  is modelled by insertion.
\<close>

definition entry_less ::
  "(InetSocketAddress \<Rightarrow> string) \<Rightarrow> (string \<Rightarrow> string \<Rightarrow> bool) \<Rightarrow>
   MaglevBuildEntry \<Rightarrow> MaglevBuildEntry \<Rightarrow> bool" where
  "entry_less addr_str str_less x y =
     (if e_offset x \<noteq> e_offset y then e_offset x < e_offset y
      else if e_skip x \<noteq> e_skip y then e_skip x < e_skip y
      else str_less (addr_str (e_address x)) (addr_str (e_address y)))"

fun insert_entry ::
  "(MaglevBuildEntry \<Rightarrow> MaglevBuildEntry \<Rightarrow> bool) \<Rightarrow> MaglevBuildEntry \<Rightarrow>
   MaglevBuildEntry list \<Rightarrow> MaglevBuildEntry list" where
  "insert_entry lt x [] = [x]"
| "insert_entry lt x (y # ys) =
     (if lt y x then y # insert_entry lt x ys else x # y # ys)"

definition sort_entries ::
  "(MaglevBuildEntry \<Rightarrow> MaglevBuildEntry \<Rightarrow> bool) \<Rightarrow> MaglevBuildEntry list \<Rightarrow>
   MaglevBuildEntry list" where
  "sort_entries lt es = foldr (insert_entry lt) es []"

text \<open>
  The inner \<open>while\<close> of the fill: step through the permutation of the entry until a
  slot whose port is still 0 is found. It returns the slot and the index reached;
  \<open>None\<close> when it never finds one. A slot outside the table is the fault
  \<open>OutOfRange\<close>.
\<close>

partial_function (option) find_slot ::
  "u64 \<Rightarrow> InetSocketAddress list \<Rightarrow> u64 \<Rightarrow> u64 \<Rightarrow> u64 \<Rightarrow> (fault + nat \<times> u64) option" where
  "find_slot m_tableSize m_lookupTable offset skip nxt =
     (let currentPermutationValue = unat ((offset + skip * nxt) mod m_tableSize)
      in if \<not> currentPermutationValue < length m_lookupTable then Some (Inl OutOfRange)
         else if port (m_lookupTable ! currentPermutationValue) \<noteq> 0
              then find_slot m_tableSize m_lookupTable offset skip (nxt + 1)
              else Some (Inr (currentPermutationValue, nxt)))"

text \<open>
  One pass of the \<open>for\<close> loop over the entries, with its \<open>break\<close> when the table is
  full. \<open>currentPass\<close> is a \<open>uint32_t\<close>. The test
  \<open>static_cast<double>(currentPass) * entry.weight < entry.targetWeightScore\<close> and the
  update \<open>entry.targetWeightScore += static_cast<double>(maxWeight)\<close> are on doubles
  holding non-negative integers: the product and the sum are rounded by \<open>round53\<close>.
\<close>

datatype 'a outcome = Diverges | Fault fault | Done 'a

fun fill_pass ::
  "u64 \<Rightarrow> u32 \<Rightarrow> u32 \<Rightarrow> MaglevBuildEntry list \<Rightarrow> InetSocketAddress list \<Rightarrow> u64 \<Rightarrow>
   (MaglevBuildEntry list \<times> InetSocketAddress list \<times> u64) outcome" where
  "fill_pass m_tableSize maxWeight currentPass [] tbl filledSlotsCount =
     Done ([], tbl, filledSlotsCount)"
| "fill_pass m_tableSize maxWeight currentPass (entry # rest) tbl filledSlotsCount =
     (if round53 (unat currentPass * unat (e_weight entry)) < targetWeightScore entry
      then (case fill_pass m_tableSize maxWeight currentPass rest tbl filledSlotsCount of
              Done (es, tbl', n') \<Rightarrow> Done (entry # es, tbl', n')
            | Fault f \<Rightarrow> Fault f
            | Diverges \<Rightarrow> Diverges)
      else
        (case find_slot m_tableSize tbl (e_offset entry) (e_skip entry)
                (nextIndexInPermutation entry) of
           None \<Rightarrow> Diverges
         | Some (Inl f) \<Rightarrow> Fault f
         | Some (Inr (slot, nxt)) \<Rightarrow>
             let entry' = entry\<lparr>targetWeightScore :=
                                 round53 (targetWeightScore entry + unat maxWeight),
                               nextIndexInPermutation := nxt + 1,
                               slotsFilledCount := slotsFilledCount entry + 1\<rparr>;
                 tbl' = tbl[slot := e_address entry];
                 n' = filledSlotsCount + 1
             in if n' = m_tableSize then Done (entry' # rest, tbl', n')
                else (case fill_pass m_tableSize maxWeight currentPass rest tbl' n' of
                        Done (es, tbl'', n'') \<Rightarrow> Done (entry' # es, tbl'', n'')
                      | Fault f \<Rightarrow> Fault f
                      | Diverges \<Rightarrow> Diverges)))"

text \<open>
  The outer \<open>while (filledSlotsCount < m_tableSize)\<close> with its safety break. The
  result is the table with \<open>m_tableBuilt\<close>, and the value of \<open>currentPass\<close> at the
  return: the break clears the table and returns with \<open>m_tableBuilt\<close> still false.
\<close>

record maglev_state =
  m_lookupTable :: "InetSocketAddress list"
  m_tableBuilt :: bool

partial_function (option) fill_loop ::
  "u64 \<Rightarrow> u32 \<Rightarrow> u32 \<Rightarrow> MaglevBuildEntry list \<Rightarrow> InetSocketAddress list \<Rightarrow> u64 \<Rightarrow>
   (fault + maglev_state \<times> u32) option" where
  "fill_loop m_tableSize maxWeight currentPass es tbl filledSlotsCount =
     (if \<not> filledSlotsCount < m_tableSize
      then Some (Inr (\<lparr>m_lookupTable = tbl, m_tableBuilt = True\<rparr>, currentPass))
      else case fill_pass m_tableSize maxWeight currentPass es tbl filledSlotsCount of
          Diverges \<Rightarrow> None
        | Fault f \<Rightarrow> Some (Inl f)
        | Done (es', tbl', n') \<Rightarrow>
            let currentPass' = currentPass + 1
            in if ucast currentPass' > m_tableSize * 2 \<and> n' < m_tableSize
               then Some (Inr (\<lparr>m_lookupTable = [], m_tableBuilt = False\<rparr>, currentPass'))
               else fill_loop m_tableSize maxWeight currentPass' es' tbl' n')"

text \<open>
  \<open>MaglevLoadBalancer::BuildTable\<close>: the new table state; \<open>Inl\<close> a fault, \<open>None\<close> a
  build that never returns.
\<close>

definition BuildTable ::
  "(string \<Rightarrow> u64) \<Rightarrow> (InetSocketAddress \<Rightarrow> string) \<Rightarrow> (string \<Rightarrow> string \<Rightarrow> bool) \<Rightarrow>
   u64 \<Rightarrow> BackendInfo list \<Rightarrow> (fault + maglev_state) option" where
  "BuildTable m_hasher addr_str str_less m_tableSize m_backends =
     (if m_backends = [] then Some (Inr \<lparr>m_lookupTable = [], m_tableBuilt = False\<rparr>)
      else if m_tableSize = 0 then Some (Inr \<lparr>m_lookupTable = [], m_tableBuilt = False\<rparr>)
      else case prepare_entries m_hasher addr_str m_tableSize m_backends of
          Inl f \<Rightarrow> Some (Inl f)
        | Inr buildEntries \<Rightarrow>
            if length buildEntries = 0
            then Some (Inr \<lparr>m_lookupTable = [], m_tableBuilt = False\<rparr>)
            else (case fill_loop m_tableSize (max_weight buildEntries) 1
                         (sort_entries (entry_less addr_str str_less) buildEntries)
                         (replicate (unat m_tableSize) AnyAddress) 0 of
                    None \<Rightarrow> None
                  | Some (Inl f) \<Rightarrow> Some (Inl f)
                  | Some (Inr (st, currentPass)) \<Rightarrow> Some (Inr st)))"


section \<open>Peak-EWMA (peak_ewma_load_balancer.h, peak_ewma_load_balancer.cc)\<close>

text \<open>
  \<open>EwmaMetric\<close>. Times are nanosecond counts of the simulator clock (\<open>int64_t\<close>;
  they start at 0 and never come near \<open>2 ^ 63\<close>, so plain integers). A \<open>double\<close>
  field is written as the number it holds. The constructor stores \<open>0.0\<close>, the decay
  time converted to \<open>double\<close> and the penalty of one second; \<open>Observe\<close> and
  \<open>GetLoad\<close>, which compute on the cost in floating point with \<open>std::exp\<close>, are not
  part of this model.
\<close>

record EwmaMetric =
  m_stampNs :: int
  m_pending :: u32
  m_costNs :: real
  m_decayTimeNs :: int
  m_decayTimeNsDouble :: real
  m_penaltyNs :: real

text \<open>The constructor \<open>EwmaMetric(decayTime)\<close> at simulator time \<open>nowNs\<close>.\<close>

definition mkEwmaMetric :: "int \<Rightarrow> int \<Rightarrow> EwmaMetric" where
  "mkEwmaMetric nowNs decayTimeNs =
     \<lparr>m_stampNs = nowNs, m_pending = 0, m_costNs = 0,
      m_decayTimeNs = max 1 decayTimeNs,
      m_decayTimeNsDouble = real (round53 (nat (max 1 decayTimeNs))),
      m_penaltyNs = 1000000000\<rparr>"

definition IncrementPending :: "EwmaMetric \<Rightarrow> EwmaMetric" where
  "IncrementPending m = m\<lparr>m_pending := m_pending m + 1\<rparr>"

definition DecrementPending :: "EwmaMetric \<Rightarrow> EwmaMetric" where
  "DecrementPending m = (if m_pending m > 0 then m\<lparr>m_pending := m_pending m - 1\<rparr> else m)"

text \<open>
  The selector: the registry of the base class, the metric map
  \<open>std::map<InetSocketAddress, EwmaMetric>\<close> and the configured decay time in
  nanoseconds.
\<close>

record peak_ewma_state =
  pe_backends :: "BackendInfo list"
  m_backendMetrics :: "InetSocketAddress \<rightharpoonup> EwmaMetric"
  m_decayTime :: int

text \<open>
  \<open>PeakEwmaLoadBalancer::SetBackends\<close>: the base class replaces the registry, the
  metric map is cleared, and one metric is emplaced for every entry of the new registry
  (\<open>emplace\<close> leaves an existing key alone, which matters only for an address listed
  twice).
\<close>

definition emplace_metric :: "int \<Rightarrow> int \<Rightarrow> (InetSocketAddress \<rightharpoonup> EwmaMetric) \<Rightarrow> InetSocketAddress \<Rightarrow> (InetSocketAddress \<rightharpoonup> EwmaMetric)" where
  "emplace_metric nowNs decayTimeNs metrics a =
     (case metrics a of None \<Rightarrow> metrics(a \<mapsto> mkEwmaMetric nowNs decayTimeNs) | Some m \<Rightarrow> metrics)"

definition PeakEwma_SetBackends :: "int \<Rightarrow> (InetSocketAddress \<times> u32) list \<Rightarrow> peak_ewma_state \<Rightarrow> peak_ewma_state" where
  "PeakEwma_SetBackends nowNs backends st =
     (let bs = SetBackends backends;
          cleared = Map.empty
      in st\<lparr>pe_backends := bs,
            m_backendMetrics :=
              foldl (\<lambda>metrics b. emplace_metric nowNs (m_decayTime st) metrics (address b))
                cleared bs\<rparr>)"

definition PeakEwma_AddBackend :: "int \<Rightarrow> InetSocketAddress \<Rightarrow> u32 \<Rightarrow> peak_ewma_state \<Rightarrow> peak_ewma_state" where
  "PeakEwma_AddBackend nowNs backendAddress w st =
     (let metricExisted = (m_backendMetrics st backendAddress \<noteq> None);
          st1 = st\<lparr>pe_backends := AddBackend backendAddress w (pe_backends st)\<rparr>
      in if \<not> metricExisted
         then st1\<lparr>m_backendMetrics :=
                    emplace_metric nowNs (m_decayTime st) (m_backendMetrics st1) backendAddress\<rparr>
         else st1)"

definition PeakEwma_NotifyRequestSent :: "InetSocketAddress \<Rightarrow> peak_ewma_state \<Rightarrow> peak_ewma_state" where
  "PeakEwma_NotifyRequestSent a st =
     (case m_backendMetrics st a of
        None \<Rightarrow> st
      | Some m \<Rightarrow> st\<lparr>m_backendMetrics := (m_backendMetrics st)(a \<mapsto> IncrementPending m)\<rparr>)"

definition PeakEwma_NotifyRequestFinished :: "InetSocketAddress \<Rightarrow> peak_ewma_state \<Rightarrow> peak_ewma_state" where
  "PeakEwma_NotifyRequestFinished a st =
     (case m_backendMetrics st a of
        None \<Rightarrow> st
      | Some m \<Rightarrow> st\<lparr>m_backendMetrics := (m_backendMetrics st)(a \<mapsto> DecrementPending m)\<rparr>)"

section \<open>Proxy core (load_balancer.cc)\<close>

text \<open>
  Sockets are identified by numbers (the \<open>Ptr<Socket>\<close> values). What the core reads
  from a socket is given by the environment of a callback: \<open>GetErrno\<close>,
  \<open>GetPeerName\<close> (\<open>None\<close> when the call fails or the address is not an IPv4 socket
  address) and the outcome of \<open>Send\<close> (negative, fewer bytes than offered, or all).
\<close>

type_synonym sock = nat

datatype SocketErrno = ERROR_NOTERROR | ERROR_AGAIN | ERROR_SHUTDOWN | ERROR_NOTCONN | ERROR_OTHER

datatype send_result = SendFailed | SendPartial | SendComplete

record environment =
  GetErrno :: "sock \<Rightarrow> SocketErrno"
  GetPeerName :: "sock \<Rightarrow> InetSocketAddress option"
  Send :: "sock \<Rightarrow> send_result"

text \<open>
  \<open>PendingRequest\<close>; of the stored request packet the core reads only the sequence
  number of its header.
\<close>

record PendingRequest =
  clientSocket :: sock
  requestSeq :: u32
  targetBackendAddress :: InetSocketAddress

text \<open>
  The maps of the core are association lists with unique keys. The rx buffers are
  kept by their keys only: the core's bookkeeping depends on whether a socket has a
  buffer, not on the bytes, and the events below carry the messages that the
  reassembly loop extracts. \<open>sent_calls\<close> and \<open>finished_calls\<close> record the calls
  of the pure virtual \<open>NotifyRequestSent\<close> and \<open>NotifyRequestFinished\<close>, in order.
\<close>

record lb_state =
  m_clientRxBuffers :: "sock list"
  m_backendRxBuffers :: "sock list"
  m_clientBackendSockets :: "(sock \<times> (InetSocketAddress \<times> sock) list) list"
  m_backendClientMap :: "(sock \<times> sock) list"
  m_pendingBackendRequests :: "(sock \<times> PendingRequest) list"
  m_requestSendTimes :: "((sock \<times> u32) \<times> int) list"
  sent_calls :: "InetSocketAddress list"
  finished_calls :: "InetSocketAddress list"

definition initial_state :: lb_state where
  "initial_state =
     \<lparr>m_clientRxBuffers = [], m_backendRxBuffers = [], m_clientBackendSockets = [],
      m_backendClientMap = [], m_pendingBackendRequests = [], m_requestSendTimes = [],
      sent_calls = [], finished_calls = []\<rparr>"

text \<open>\<open>std::map\<close>: \<open>erase(key)\<close>, \<open>operator[]\<close> assignment and \<open>emplace\<close>.\<close>

definition erase :: "'k \<Rightarrow> ('k \<times> 'v) list \<Rightarrow> ('k \<times> 'v) list" where
  "erase k m = filter (\<lambda>kv. fst kv \<noteq> k) m"

fun assign :: "'k \<Rightarrow> 'v \<Rightarrow> ('k \<times> 'v) list \<Rightarrow> ('k \<times> 'v) list" where
  "assign k v [] = [(k, v)]"
| "assign k v (kv # m) = (if fst kv = k then (k, v) # m else kv # assign k v m)"

definition emplace :: "'k \<Rightarrow> 'v \<Rightarrow> ('k \<times> 'v) list \<Rightarrow> ('k \<times> 'v) list" where
  "emplace k v m = (if map_of m k = None then m @ [(k, v)] else m)"

definition note_sent :: "InetSocketAddress \<Rightarrow> lb_state \<Rightarrow> lb_state" where
  "note_sent a st = st\<lparr>sent_calls := sent_calls st @ [a]\<rparr>"

definition note_finished :: "InetSocketAddress \<Rightarrow> lb_state \<Rightarrow> lb_state" where
  "note_finished a st = st\<lparr>finished_calls := finished_calls st @ [a]\<rparr>"

text \<open>
  The loop shared by \<open>HandleBackendClose\<close>, \<open>HandleBackendError\<close> and
  \<open>CleanupBackendSocket\<close>: every send-time entry of the socket is erased, with one
  \<open>NotifyRequestFinished\<close> each when the address is known.
\<close>

definition finish_outstanding :: "sock \<Rightarrow> InetSocketAddress option \<Rightarrow> lb_state \<Rightarrow> lb_state" where
  "finish_outstanding backendSocket addr st =
     (let outstanding = filter (\<lambda>kv. fst (fst kv) = backendSocket) (m_requestSendTimes st)
      in st\<lparr>m_requestSendTimes :=
               filter (\<lambda>kv. fst (fst kv) \<noteq> backendSocket) (m_requestSendTimes st),
             finished_calls :=
               finished_calls st @
                 (case addr of None \<Rightarrow> [] | Some a \<Rightarrow> map (\<lambda>kv. a) outstanding)\<rparr>)"

text \<open>
  \<open>CleanupBackendSocket\<close>. The flag \<open>mapEraseOnly\<close> only decides whether the socket
  is closed at the end, which is outside this state.
\<close>

definition CleanupBackendSocket :: "environment \<Rightarrow> sock \<Rightarrow> lb_state \<Rightarrow> lb_state" where
  "CleanupBackendSocket env backendSocket st =
     (let addr0 = GetPeerName env backendSocket;
          client = map_of (m_backendClientMap st) backendSocket;
          st1 = st\<lparr>m_backendClientMap := erase backendSocket (m_backendClientMap st)\<rparr>;
          (addr1, st2) =
            (case client of
               None \<Rightarrow> (addr0, st1)
             | Some c \<Rightarrow>
                 (case map_of (m_clientBackendSockets st1) c of
                    None \<Rightarrow> (addr0, st1)
                  | Some backendMap \<Rightarrow>
                      (case find (\<lambda>kv. snd kv = backendSocket) backendMap of
                         None \<Rightarrow> (addr0, st1)
                       | Some kv \<Rightarrow>
                           ((if addr0 = None then Some (fst kv) else addr0),
                            st1\<lparr>m_clientBackendSockets :=
                                  assign c (erase (fst kv) backendMap)
                                    (m_clientBackendSockets st1)\<rparr>))));
          st3 = st2\<lparr>m_backendRxBuffers := removeAll backendSocket (m_backendRxBuffers st2)\<rparr>;
          (addr2, st4) =
            (case map_of (m_pendingBackendRequests st3) backendSocket of
               None \<Rightarrow> (addr1, st3)
             | Some p \<Rightarrow>
                 ((if addr1 = None then Some (targetBackendAddress p) else addr1),
                  st3\<lparr>m_pendingBackendRequests :=
                        erase backendSocket (m_pendingBackendRequests st3)\<rparr>))
      in finish_outstanding backendSocket addr2 st4)"

definition SendToBackend :: "environment \<Rightarrow> sock \<Rightarrow> lb_state \<Rightarrow> lb_state" where
  "SendToBackend env backendSocket st =
     (let target =
            (case GetPeerName env backendSocket of
               Some a \<Rightarrow> Some a
             | None \<Rightarrow> map_option targetBackendAddress
                         (map_of (m_pendingBackendRequests st) backendSocket))
      in if GetErrno env backendSocket \<noteq> ERROR_NOTERROR
         then CleanupBackendSocket env backendSocket
                (case target of None \<Rightarrow> st | Some a \<Rightarrow> note_finished a st)
         else (case Send env backendSocket of
                 SendFailed \<Rightarrow> (case target of None \<Rightarrow> st | Some a \<Rightarrow> note_finished a st)
               | SendPartial \<Rightarrow> st
               | SendComplete \<Rightarrow> st))"

text \<open>
  \<open>AttemptForwardRequest\<close> for one extracted request with sequence number
  \<open>currentSeq\<close>. \<open>chosen\<close> is the result of the selector's \<open>ChooseBackend\<close>
  (\<open>None\<close> for false) and \<open>newSocket\<close> what \<open>Socket::CreateSocket\<close> returns if the
  core asks for a socket (\<open>None\<close> for a null pointer).
\<close>

definition AttemptForwardRequest ::
  "environment \<Rightarrow> int \<Rightarrow> sock \<Rightarrow> u32 \<Rightarrow> InetSocketAddress option \<Rightarrow> sock option \<Rightarrow>
   lb_state \<Rightarrow> lb_state" where
  "AttemptForwardRequest env now client currentSeq chosen newSocket st =
     (case chosen of
        None \<Rightarrow> st
      | Some chosenBackendAddress \<Rightarrow>
          (case map_of (m_clientBackendSockets st) client of
             None \<Rightarrow> st
           | Some backendMap \<Rightarrow>
               let (reuse, st1) =
                     (case map_of backendMap chosenBackendAddress of
                        None \<Rightarrow> (None, st)
                      | Some s \<Rightarrow>
                          if GetErrno env s = ERROR_NOTERROR then (Some s, st)
                          else
                            let stc = CleanupBackendSocket env s st
                            in (None,
                                stc\<lparr>m_clientBackendSockets :=
                                      (case map_of (m_clientBackendSockets stc) client of
                                         None \<Rightarrow> m_clientBackendSockets stc
                                       | Some bm \<Rightarrow>
                                           assign client (erase chosenBackendAddress bm)
                                             (m_clientBackendSockets stc))\<rparr>))
               in (case reuse of
                     Some s \<Rightarrow>
                       SendToBackend env s
                         ((note_sent chosenBackendAddress st1)
                            \<lparr>m_requestSendTimes :=
                               assign (s, currentSeq) now (m_requestSendTimes st1)\<rparr>)
                   | None \<Rightarrow>
                       (case newSocket of
                          None \<Rightarrow> st1
                        | Some newBackendSocket \<Rightarrow>
                            let st2 = note_sent chosenBackendAddress st1
                            in if map_of (m_pendingBackendRequests st2) newBackendSocket \<noteq> None
                               then note_finished chosenBackendAddress st2
                               else
                                 st2\<lparr>m_pendingBackendRequests :=
                                       m_pendingBackendRequests st2 @
                                         [(newBackendSocket,
                                           \<lparr>clientSocket = client, requestSeq = currentSeq,
                                            targetBackendAddress = chosenBackendAddress\<rparr>)],
                                     m_backendClientMap :=
                                       assign newBackendSocket client (m_backendClientMap st2),
                                     m_clientBackendSockets :=
                                       (case map_of (m_clientBackendSockets st2) client of
                                          None \<Rightarrow> m_clientBackendSockets st2
                                        | Some bm \<Rightarrow>
                                            assign client
                                              (assign chosenBackendAddress newBackendSocket bm)
                                              (m_clientBackendSockets st2))\<rparr>))))"

definition HandleAccept :: "sock \<Rightarrow> lb_state \<Rightarrow> lb_state" where
  "HandleAccept acceptedSocket st =
     st\<lparr>m_clientRxBuffers :=
          (if acceptedSocket \<in> set (m_clientRxBuffers st) then m_clientRxBuffers st
           else m_clientRxBuffers st @ [acceptedSocket]),
        m_clientBackendSockets := emplace acceptedSocket [] (m_clientBackendSockets st)\<rparr>"

definition HandleBackendConnectSuccess :: "environment \<Rightarrow> int \<Rightarrow> sock \<Rightarrow> lb_state \<Rightarrow> lb_state" where
  "HandleBackendConnectSuccess env now backendSocket st =
     (case map_of (m_pendingBackendRequests st) backendSocket of
        None \<Rightarrow> CleanupBackendSocket env backendSocket st
      | Some pendingInfo \<Rightarrow>
          let st1 = st\<lparr>m_pendingBackendRequests :=
                         erase backendSocket (m_pendingBackendRequests st)\<rparr>
          in if GetErrno env (clientSocket pendingInfo) \<noteq> ERROR_NOTERROR
             then CleanupBackendSocket env backendSocket
                    (note_finished (targetBackendAddress pendingInfo) st1)
             else SendToBackend env backendSocket
                    (st1\<lparr>m_backendRxBuffers :=
                           (if backendSocket \<in> set (m_backendRxBuffers st1)
                            then m_backendRxBuffers st1
                            else m_backendRxBuffers st1 @ [backendSocket]),
                         m_requestSendTimes :=
                           assign (backendSocket, requestSeq pendingInfo) now
                             (m_requestSendTimes st1)\<rparr>))"

definition HandleBackendConnectFail :: "environment \<Rightarrow> sock \<Rightarrow> lb_state \<Rightarrow> lb_state" where
  "HandleBackendConnectFail env backendSocket st =
     CleanupBackendSocket env backendSocket
       (case map_of (m_pendingBackendRequests st) backendSocket of
          None \<Rightarrow> st
        | Some p \<Rightarrow>
            (note_finished (targetBackendAddress p) st)
              \<lparr>m_pendingBackendRequests :=
                 erase backendSocket (m_pendingBackendRequests st)\<rparr>)"

text \<open>
  \<open>HandleBackendRead\<close>, with the responses that the reassembly loop extracts in this
  call given by their sequence numbers. For each one the send-time entry is erased if
  the address is resolved and the entry exists, and \<open>NotifyRequestFinished\<close> is called
  whenever the address is resolved.
\<close>

definition process_response :: "InetSocketAddress option \<Rightarrow> sock \<Rightarrow> lb_state \<Rightarrow> u32 \<Rightarrow> lb_state" where
  "process_response resolved backendSocket st currentSeq =
     (case resolved of
        None \<Rightarrow> st
      | Some backendInetAddr \<Rightarrow>
          note_finished backendInetAddr
            (st\<lparr>m_requestSendTimes :=
                  erase (backendSocket, currentSeq) (m_requestSendTimes st)\<rparr>))"

definition read_error :: "SocketErrno \<Rightarrow> bool" where
  "read_error e =
     (e \<noteq> ERROR_NOTERROR \<and> e \<noteq> ERROR_AGAIN \<and> e \<noteq> ERROR_SHUTDOWN \<and> e \<noteq> ERROR_NOTCONN)"

definition HandleBackendRead :: "environment \<Rightarrow> sock \<Rightarrow> u32 list \<Rightarrow> lb_state \<Rightarrow> lb_state" where
  "HandleBackendRead env backendSocket responses st =
     (case map_of (m_backendClientMap st) backendSocket of
        None \<Rightarrow> st
      | Some client \<Rightarrow>
          if GetErrno env client \<noteq> ERROR_NOTERROR
          then CleanupBackendSocket env backendSocket st
          else if backendSocket \<notin> set (m_backendRxBuffers st)
          then CleanupBackendSocket env backendSocket st
          else
            let st1 = foldl (process_response (GetPeerName env backendSocket) backendSocket)
                        st responses
            in if read_error (GetErrno env backendSocket)
               then CleanupBackendSocket env backendSocket st1
               else st1)"

definition HandleBackendClose :: "environment \<Rightarrow> sock \<Rightarrow> lb_state \<Rightarrow> lb_state" where
  "HandleBackendClose env backendSocket st =
     CleanupBackendSocket env backendSocket
       (case GetPeerName env backendSocket of
          None \<Rightarrow> st
        | Some backendAddress \<Rightarrow> finish_outstanding backendSocket (Some backendAddress) st)"

definition HandleBackendError :: "environment \<Rightarrow> sock \<Rightarrow> lb_state \<Rightarrow> lb_state" where
  "HandleBackendError env backendSocket st =
     CleanupBackendSocket env backendSocket
       (case map_of (m_pendingBackendRequests st) backendSocket of
          Some p \<Rightarrow> note_finished (targetBackendAddress p) st
        | None \<Rightarrow>
            (case GetPeerName env backendSocket of
               None \<Rightarrow> st
             | Some backendAddress \<Rightarrow>
                 finish_outstanding backendSocket (Some backendAddress) st))"

text \<open>
  \<open>CleanupClient\<close>: first every backend socket of the client's map is cleaned up,
  then the pending records that still name this client are notified, erased and
  their sockets cleaned up.
\<close>

definition drop_pending_of :: "environment \<Rightarrow> sock \<Rightarrow> lb_state \<Rightarrow> sock \<times> PendingRequest \<Rightarrow> lb_state" where
  "drop_pending_of env client st entry =
     (if clientSocket (snd entry) = client
      then CleanupBackendSocket env (fst entry)
             ((note_finished (targetBackendAddress (snd entry)) st)
                \<lparr>m_pendingBackendRequests := erase (fst entry) (m_pendingBackendRequests st)\<rparr>)
      else st)"

definition CleanupClient :: "environment \<Rightarrow> sock \<Rightarrow> lb_state \<Rightarrow> lb_state" where
  "CleanupClient env client st =
     (let st1 =
            (case map_of (m_clientBackendSockets st) client of
               None \<Rightarrow> st
             | Some backendMap \<Rightarrow>
                 let stc = foldl (\<lambda>s backendSock. CleanupBackendSocket env backendSock s)
                             st (map snd backendMap)
                 in stc\<lparr>m_clientBackendSockets := erase client (m_clientBackendSockets stc)\<rparr>);
          st2 = st1\<lparr>m_clientRxBuffers := removeAll client (m_clientRxBuffers st1)\<rparr>
      in foldl (drop_pending_of env client) st2 (m_pendingBackendRequests st2))"

text \<open>
  \<open>HandleClientRead\<close>, with the requests that the reassembly loop extracts in this
  call: sequence number, the selector's choice and the socket the runtime would
  create.
\<close>

definition HandleClientRead ::
  "environment \<Rightarrow> int \<Rightarrow> sock \<Rightarrow> (u32 \<times> InetSocketAddress option \<times> sock option) list \<Rightarrow>
   lb_state \<Rightarrow> lb_state" where
  "HandleClientRead env now client requests st =
     (if client \<notin> set (m_clientRxBuffers st) then st
      else
        let st1 = foldl (\<lambda>s r. AttemptForwardRequest env now client (fst r) (fst (snd r))
                                  (snd (snd r)) s) st requests
        in if read_error (GetErrno env client) then CleanupClient env client st1 else st1)"

definition StopApplication :: "environment \<Rightarrow> lb_state \<Rightarrow> lb_state" where
  "StopApplication env st =
     (let st1 = foldl (\<lambda>s clientSock. CleanupClient env clientSock s) st
                  (map fst (m_clientBackendSockets st));
          st2 = st1\<lparr>m_clientBackendSockets := []\<rparr>;
          st3 = foldl (\<lambda>s backendSock. CleanupBackendSocket env backendSock s) st2
                  (map fst (m_pendingBackendRequests st2))
      in st3\<lparr>m_pendingBackendRequests := [], m_clientRxBuffers := [],
             m_backendRxBuffers := [], m_backendClientMap := [],
             m_requestSendTimes := []\<rparr>)"

text \<open>The callbacks of the runtime, each with the environment and the time it sees.\<close>

datatype event =
    Accept sock
  | ClientRead sock "(u32 \<times> InetSocketAddress option \<times> sock option) list"
  | BackendConnectSuccess sock
  | BackendConnectFail sock
  | BackendRead sock "u32 list"
  | BackendClose sock
  | BackendError sock
  | ClientClose sock
  | ClientError sock
  | Stop

fun handle :: "environment \<Rightarrow> int \<Rightarrow> event \<Rightarrow> lb_state \<Rightarrow> lb_state" where
  "handle env now (Accept c) st = HandleAccept c st"
| "handle env now (ClientRead c requests) st = HandleClientRead env now c requests st"
| "handle env now (BackendConnectSuccess s) st = HandleBackendConnectSuccess env now s st"
| "handle env now (BackendConnectFail s) st = HandleBackendConnectFail env s st"
| "handle env now (BackendRead s responses) st = HandleBackendRead env s responses st"
| "handle env now (BackendClose s) st = HandleBackendClose env s st"
| "handle env now (BackendError s) st = HandleBackendError env s st"
| "handle env now (ClientClose c) st = CleanupClient env c st"
| "handle env now (ClientError c) st = CleanupClient env c st"
| "handle env now Stop st = StopApplication env st"

definition run_events :: "(environment \<times> int \<times> event) list \<Rightarrow> lb_state \<Rightarrow> lb_state" where
  "run_events evs st = foldl (\<lambda>s e. handle (fst e) (fst (snd e)) (snd (snd e)) s) st evs"

text \<open>
  Two environments for concrete runs. In \<open>healthy_env pn\<close> no socket has an error,
  peer names are as \<open>pn\<close> says and every send takes the whole message. In
  \<open>send_failing_env a\<close> no socket has an error when asked, every peer name is \<open>a\<close>
  and \<open>Send\<close> returns a negative value (as a full transmit buffer makes it do).
\<close>

definition healthy_env :: "(sock \<Rightarrow> InetSocketAddress option) \<Rightarrow> environment" where
  "healthy_env pn =
     \<lparr>GetErrno = (\<lambda>s. ERROR_NOTERROR), GetPeerName = pn, Send = (\<lambda>s. SendComplete)\<rparr>"

definition send_failing_env :: "InetSocketAddress \<Rightarrow> environment" where
  "send_failing_env a =
     \<lparr>GetErrno = (\<lambda>s. ERROR_NOTERROR), GetPeerName = (\<lambda>s. Some a), Send = (\<lambda>s. SendFailed)\<rparr>"

definition backend_A :: InetSocketAddress where
  "backend_A = \<lparr>ipv4 = 167772161, port = 9\<rparr>"

section \<open>Framing header: serialisation and its inverse\<close>

lemma ReadNtohU32_bits:
  "push_bit 24 (ucast (ucast (drop_bit 24 w) :: u8)) OR
   push_bit 16 (ucast (ucast (drop_bit 16 w) :: u8)) OR
   push_bit 8 (ucast (ucast (drop_bit 8 w) :: u8)) OR
   ucast (ucast w :: u8) = (w :: u32)"
proof (rule bit_word_eqI)
  fix n assume "n < LENGTH(32)"
  then have n: "n < 32" by simp
  consider "n < 8" | "8 \<le> n" "n < 16" | "16 \<le> n" "n < 24" | "24 \<le> n" "n < 32"
    using n by linarith
  then show "bit (push_bit 24 (ucast (ucast (drop_bit 24 w) :: u8)) OR
        push_bit 16 (ucast (ucast (drop_bit 16 w) :: u8)) OR
        push_bit 8 (ucast (ucast (drop_bit 8 w) :: u8)) OR
        ucast (ucast w :: u8) :: u32) n = bit w n"
    by cases (auto simp: bit_simps)
qed

lemma ReadNtohU64_bits:
  "push_bit 56 (ucast (ucast (drop_bit 56 w) :: u8)) OR
   push_bit 48 (ucast (ucast (drop_bit 48 w) :: u8)) OR
   push_bit 40 (ucast (ucast (drop_bit 40 w) :: u8)) OR
   push_bit 32 (ucast (ucast (drop_bit 32 w) :: u8)) OR
   push_bit 24 (ucast (ucast (drop_bit 24 w) :: u8)) OR
   push_bit 16 (ucast (ucast (drop_bit 16 w) :: u8)) OR
   push_bit 8 (ucast (ucast (drop_bit 8 w) :: u8)) OR
   ucast (ucast w :: u8) = (w :: u64)"
proof (rule bit_word_eqI)
  fix n assume "n < LENGTH(64)"
  then have n: "n < 64" by simp
  consider "n < 8" | "8 \<le> n" "n < 16" | "16 \<le> n" "n < 24" | "24 \<le> n" "n < 32"
    | "32 \<le> n" "n < 40" | "40 \<le> n" "n < 48" | "48 \<le> n" "n < 56" | "56 \<le> n" "n < 64"
    using n by linarith
  then show "bit (push_bit 56 (ucast (ucast (drop_bit 56 w) :: u8)) OR
        push_bit 48 (ucast (ucast (drop_bit 48 w) :: u8)) OR
        push_bit 40 (ucast (ucast (drop_bit 40 w) :: u8)) OR
        push_bit 32 (ucast (ucast (drop_bit 32 w) :: u8)) OR
        push_bit 24 (ucast (ucast (drop_bit 24 w) :: u8)) OR
        push_bit 16 (ucast (ucast (drop_bit 16 w) :: u8)) OR
        push_bit 8 (ucast (ucast (drop_bit 8 w) :: u8)) OR
        ucast (ucast w :: u8) :: u64) n = bit w n"
    by cases (auto simp: bit_simps)
qed

lemma ReadNtohU32_WriteHtonU32: "ReadNtohU32 (WriteHtonU32 w @ rest) = Some (w, rest)"
  using ReadNtohU32_bits[of w] by (simp add: WriteHtonU32_def)

lemma ReadNtohU64_WriteHtonU64: "ReadNtohU64 (WriteHtonU64 w @ rest) = Some (w, rest)"
  using ReadNtohU64_bits[of w] by (simp add: WriteHtonU64_def)

lemma Deserialize_Serialize: "Deserialize (Serialize h @ rest) = Some (h, 24)"
  by (simp add: Deserialize_def Serialize_def ReadNtohU32_WriteHtonU32
      ReadNtohU64_WriteHtonU64 GetSerializedSize_def)

lemma ReadNtohU32_total: "4 \<le> length bs \<Longrightarrow> \<exists>v. ReadNtohU32 bs = Some (v, drop 4 bs)"
  by (cases bs rule: ReadNtohU32.cases) auto

lemma ReadNtohU64_total: "8 \<le> length bs \<Longrightarrow> \<exists>v. ReadNtohU64 bs = Some (v, drop 8 bs)"
  by (cases bs rule: ReadNtohU64.cases) auto

lemma Deserialize_total:
  assumes "24 \<le> length bs"
  shows "\<exists>h. Deserialize bs = Some (h, 24)"
proof -
  have l1: "4 \<le> length bs" and l2: "8 \<le> length (drop 4 bs)"
    and l3: "4 \<le> length (drop 12 bs)" and l4: "8 \<le> length (drop 16 bs)"
    using assms by simp_all
  obtain s where s: "ReadNtohU32 bs = Some (s, drop 4 bs)"
    using ReadNtohU32_total[OF l1] by blast
  obtain t where t: "ReadNtohU64 (drop 4 bs) = Some (t, drop 12 bs)"
    using ReadNtohU64_total[OF l2] by auto
  obtain p where p: "ReadNtohU32 (drop 12 bs) = Some (p, drop 16 bs)"
    using ReadNtohU32_total[OF l3] by auto
  obtain l where l: "ReadNtohU64 (drop 16 bs) = Some (l, drop 24 bs)"
    using ReadNtohU64_total[OF l4] by auto
  show ?thesis
    by (simp add: Deserialize_def s t p l GetSerializedSize_def)
qed

lemma Serialize_bytes:
  "Serialize h =
    [ucast (drop_bit 24 (m_seq h)), ucast (drop_bit 16 (m_seq h)),
     ucast (drop_bit 8 (m_seq h)), ucast (m_seq h),
     ucast (drop_bit 56 (m_timestamp h)), ucast (drop_bit 48 (m_timestamp h)),
     ucast (drop_bit 40 (m_timestamp h)), ucast (drop_bit 32 (m_timestamp h)),
     ucast (drop_bit 24 (m_timestamp h)), ucast (drop_bit 16 (m_timestamp h)),
     ucast (drop_bit 8 (m_timestamp h)), ucast (m_timestamp h),
     ucast (drop_bit 24 (m_payloadSize h)), ucast (drop_bit 16 (m_payloadSize h)),
     ucast (drop_bit 8 (m_payloadSize h)), ucast (m_payloadSize h),
     ucast (drop_bit 56 (m_l7Identifier h)), ucast (drop_bit 48 (m_l7Identifier h)),
     ucast (drop_bit 40 (m_l7Identifier h)), ucast (drop_bit 32 (m_l7Identifier h)),
     ucast (drop_bit 24 (m_l7Identifier h)), ucast (drop_bit 16 (m_l7Identifier h)),
     ucast (drop_bit 8 (m_l7Identifier h)), ucast (m_l7Identifier h)]"
  by (simp add: Serialize_def WriteHtonU32_def WriteHtonU64_def)

text \<open>
  Claim C6. The serialised size is 24 bytes. \<open>Serialize\<close> writes the sequence number
  (4 bytes), the timestamp in nanoseconds (8 bytes), the payload size (4 bytes) and the
  L7 identifier (8 bytes), in that order, each with its most significant byte first.
  \<open>Deserialize\<close> succeeds on every buffer of 24 bytes, reading 24 bytes, and
  deserialising the serialisation of a header gives that header back, all four fields.
\<close>

theorem header_serialize_roundtrip:
  "GetSerializedSize = 24 \<and>
   length (Serialize h) = 24 \<and>
   Serialize h =
    [ucast (drop_bit 24 (m_seq h)), ucast (drop_bit 16 (m_seq h)),
     ucast (drop_bit 8 (m_seq h)), ucast (m_seq h),
     ucast (drop_bit 56 (m_timestamp h)), ucast (drop_bit 48 (m_timestamp h)),
     ucast (drop_bit 40 (m_timestamp h)), ucast (drop_bit 32 (m_timestamp h)),
     ucast (drop_bit 24 (m_timestamp h)), ucast (drop_bit 16 (m_timestamp h)),
     ucast (drop_bit 8 (m_timestamp h)), ucast (m_timestamp h),
     ucast (drop_bit 24 (m_payloadSize h)), ucast (drop_bit 16 (m_payloadSize h)),
     ucast (drop_bit 8 (m_payloadSize h)), ucast (m_payloadSize h),
     ucast (drop_bit 56 (m_l7Identifier h)), ucast (drop_bit 48 (m_l7Identifier h)),
     ucast (drop_bit 40 (m_l7Identifier h)), ucast (drop_bit 32 (m_l7Identifier h)),
     ucast (drop_bit 24 (m_l7Identifier h)), ucast (drop_bit 16 (m_l7Identifier h)),
     ucast (drop_bit 8 (m_l7Identifier h)), ucast (m_l7Identifier h)] \<and>
   (length bs = 24 \<longrightarrow> (\<exists>h'. Deserialize bs = Some (h', 24))) \<and>
   Deserialize (Serialize h) = Some (h, 24)"
proof -
  have "length (Serialize h) = 24"
    by (simp add: Serialize_bytes)
  moreover have "length bs = 24 \<longrightarrow> (\<exists>h'. Deserialize bs = Some (h', 24))"
    using Deserialize_total[of bs] by simp
  moreover have "Deserialize (Serialize h) = Some (h, 24)"
    using Deserialize_Serialize[of h "[]"] by simp
  ultimately show ?thesis
    using Serialize_bytes[of h] by (simp add: GetSerializedSize_def)
qed

theorem header_serialize_roundtrip_witness:
  "length (replicate 24 (255 :: u8)) = 24 \<and>
   (\<exists>h'. Deserialize (replicate 24 (255 :: u8)) = Some (h', 24)) \<and>
   Deserialize (Serialize \<lparr>m_seq = 7, m_timestamp = 1000000, m_payloadSize = 100,
                           m_l7Identifier = 42\<rparr>)
     = Some (\<lparr>m_seq = 7, m_timestamp = 1000000, m_payloadSize = 100,
              m_l7Identifier = 42\<rparr>, 24)"
proof -
  note t = header_serialize_roundtrip
    [of "\<lparr>m_seq = 7, m_timestamp = 1000000, m_payloadSize = 100, m_l7Identifier = 42\<rparr>"
        "replicate 24 (255 :: u8)"]
  have len: "length (replicate 24 (255 :: u8)) = 24"
    by simp
  from t have tot: "length (replicate 24 (255 :: u8)) = 24 \<longrightarrow>
      (\<exists>h'. Deserialize (replicate 24 (255 :: u8)) = Some (h', 24))"
    by blast
  from t have rt: "Deserialize (Serialize \<lparr>m_seq = 7, m_timestamp = 1000000,
      m_payloadSize = 100, m_l7Identifier = 42\<rparr>)
     = Some (\<lparr>m_seq = 7, m_timestamp = 1000000, m_payloadSize = 100,
              m_l7Identifier = 42\<rparr>, 24)"
    by blast
  from len tot rt show ?thesis by blast
qed

section \<open>Backend registry: adding a known address\<close>

lemma FindBackendInfo_Some:
  "FindBackendInfo bs a = Some i \<Longrightarrow>
     i < length bs \<and> address (bs ! i) = a \<and> (\<forall>j<i. address (bs ! j) \<noteq> a)"
proof (induction bs arbitrary: i)
  case Nil
  then show ?case by simp
next
  case (Cons b bs)
  show ?case
  proof (cases "address b = a")
    case True
    with Cons.prems show ?thesis by simp
  next
    case False
    with Cons.prems obtain k where k: "FindBackendInfo bs a = Some k" "i = Suc k"
      by (auto split: option.splits)
    from Cons.IH[OF k(1)] False k(2) show ?thesis
      by (auto simp: nth_Cons split: nat.splits)
  qed
qed

lemma FindBackendInfo_None: "FindBackendInfo bs a = None \<longleftrightarrow> a \<notin> address ` set bs"
  by (induction bs) (auto split: option.splits)

text \<open>
  Claim C10. When the address is already in the registry, \<open>AddBackend\<close> changes only
  the weight of the entry that \<open>FindBackendInfo\<close> returns (the first one with that
  address): the list keeps its length and its order of addresses, no entry is added,
  every \<open>activeRequests\<close> count is as before, and every other entry is unchanged.
\<close>

theorem AddBackend_existing_only_weight:
  assumes "a \<in> address ` set m_backends"
  shows "\<exists>i. FindBackendInfo m_backends a = Some i \<and> i < length m_backends \<and>
           address (m_backends ! i) = a \<and>
           AddBackend a w m_backends = m_backends[i := (m_backends ! i)\<lparr>weight := w\<rparr>] \<and>
           length (AddBackend a w m_backends) = length m_backends \<and>
           map address (AddBackend a w m_backends) = map address m_backends \<and>
           map activeRequests (AddBackend a w m_backends) = map activeRequests m_backends \<and>
           weight (AddBackend a w m_backends ! i) = w \<and>
           (\<forall>j < length m_backends. j \<noteq> i \<longrightarrow>
               AddBackend a w m_backends ! j = m_backends ! j)"
proof -
  from assms obtain i where i: "FindBackendInfo m_backends a = Some i"
    using FindBackendInfo_None[of m_backends a] by (cases "FindBackendInfo m_backends a") auto
  note f = FindBackendInfo_Some[OF i]
  have eq: "AddBackend a w m_backends = m_backends[i := (m_backends ! i)\<lparr>weight := w\<rparr>]"
    by (simp add: AddBackend_def i)
  have "map address (m_backends[i := (m_backends ! i)\<lparr>weight := w\<rparr>]) = map address m_backends"
    using f by (simp add: map_update list_update_same_conv)
  moreover have "map activeRequests (m_backends[i := (m_backends ! i)\<lparr>weight := w\<rparr>])
      = map activeRequests m_backends"
    using f by (simp add: map_update list_update_same_conv)
  ultimately show ?thesis
    using i f eq by auto
qed

theorem AddBackend_existing_only_weight_witness:
  "AddBackend \<lparr>ipv4 = 2, port = 80\<rparr> 9
     [\<lparr>address = \<lparr>ipv4 = 1, port = 80\<rparr>, weight = 1, activeRequests = 4\<rparr>,
      \<lparr>address = \<lparr>ipv4 = 2, port = 80\<rparr>, weight = 2, activeRequests = 5\<rparr>]
   = [\<lparr>address = \<lparr>ipv4 = 1, port = 80\<rparr>, weight = 1, activeRequests = 4\<rparr>,
      \<lparr>address = \<lparr>ipv4 = 2, port = 80\<rparr>, weight = 9, activeRequests = 5\<rparr>]"
  using AddBackend_existing_only_weight
    [of "\<lparr>ipv4 = 2, port = 80\<rparr>"
        "[\<lparr>address = \<lparr>ipv4 = 1, port = 80\<rparr>, weight = 1, activeRequests = 4\<rparr>,
          \<lparr>address = \<lparr>ipv4 = 2, port = 80\<rparr>, weight = 2, activeRequests = 5\<rparr>]" 9]
  by auto

section \<open>Stream reassembly\<close>

text \<open>
  The three cases of one turn of the loop, when the total size does not wrap around:
  fewer than 24 bytes stop the loop with the buffer untouched; so does a buffer
  shorter than the total size; otherwise exactly the first \<open>24 + payload_size\<close> bytes
  are handed over and erased.
\<close>

lemma reassemble_short:
  "length buf < 24 \<Longrightarrow> reassemble buf msgs = Some (msgs, buf)"
  by (subst reassemble.simps) (simp add: GetSerializedSize_def)

lemma reassemble_partial:
  assumes "24 \<le> length buf"
    and "Deserialize (take 24 buf) = Some (h, 24)"
    and "24 + unat (m_payloadSize h) < 2 ^ 32"
    and "length buf < 24 + unat (m_payloadSize h)"
  shows "reassemble buf msgs = Some (msgs, buf)"
proof -
  have "unat ((24 :: u32) + m_payloadSize h) = 24 + unat (m_payloadSize h)"
    using assms(3) by (simp add: unat_word_ariths)
  with assms show ?thesis
    by (subst reassemble.simps) (simp add: GetSerializedSize_def Let_def)
qed

lemma reassemble_whole:
  assumes "24 \<le> length buf"
    and "Deserialize (take 24 buf) = Some (h, 24)"
    and "24 + unat (m_payloadSize h) < 2 ^ 32"
    and "24 + unat (m_payloadSize h) \<le> length buf"
  shows "reassemble buf msgs =
           reassemble (drop (24 + unat (m_payloadSize h)) buf)
             (msgs @ [take (24 + unat (m_payloadSize h)) buf])"
proof -
  have "unat ((24 :: u32) + m_payloadSize h) = 24 + unat (m_payloadSize h)"
    using assms(3) by (simp add: unat_word_ariths)
  with assms show ?thesis
    by (subst reassemble.simps) (simp add: GetSerializedSize_def Let_def)
qed

text \<open>
  So, as long as no total size reaches \<open>2 ^ 32\<close>: from a buffer that holds whole
  framed messages followed by a part of one (fewer than 24 bytes, or a header with
  less than its payload), the loop hands over exactly those messages, in order, and
  leaves the part untouched.
\<close>

lemma length_Serialize: "length (Serialize h) = 24"
  by (simp add: Serialize_bytes)

lemma reassemble_frames:
  assumes "\<forall>f\<in>set frames. length (snd f) = unat (m_payloadSize (fst f)) \<and>
             24 + unat (m_payloadSize (fst f)) < 2 ^ 32"
    and "length rest < 24 \<or>
         (\<exists>h. Deserialize (take 24 rest) = Some (h, 24) \<and>
              24 + unat (m_payloadSize h) < 2 ^ 32 \<and>
              length rest < 24 + unat (m_payloadSize h))"
  shows "reassemble (concat (map (\<lambda>f. Serialize (fst f) @ snd f) frames) @ rest) msgs
           = Some (msgs @ map (\<lambda>f. Serialize (fst f) @ snd f) frames, rest)"
  using assms
proof (induction frames arbitrary: msgs)
  case Nil
  from Nil.prems(2) show ?case
  proof
    assume "length rest < 24"
    then show ?thesis by (simp add: reassemble_short)
  next
    assume "\<exists>h. Deserialize (take 24 rest) = Some (h, 24) \<and>
              24 + unat (m_payloadSize h) < 2 ^ 32 \<and>
              length rest < 24 + unat (m_payloadSize h)"
    then obtain h where h: "Deserialize (take 24 rest) = Some (h, 24)"
      "24 + unat (m_payloadSize h) < 2 ^ 32" "length rest < 24 + unat (m_payloadSize h)"
      by blast
    show ?thesis
    proof (cases "length rest < 24")
      case True
      then show ?thesis by (simp add: reassemble_short)
    next
      case False
      then have "24 \<le> length rest" by simp
      from reassemble_partial[OF this h] show ?thesis by simp
    qed
  qed
next
  case (Cons f frames)
  obtain h p where f: "f = (h, p)" by (cases f)
  from Cons.prems(1) f have wf: "length p = unat (m_payloadSize h)"
    "24 + unat (m_payloadSize h) < 2 ^ 32" by simp_all
  let ?tail = "concat (map (\<lambda>f. Serialize (fst f) @ snd f) frames) @ rest"
  let ?buf = "Serialize h @ p @ ?tail"
  have l: "24 \<le> length ?buf" by (simp add: length_Serialize)
  have d: "Deserialize (take 24 ?buf) = Some (h, 24)"
    using Deserialize_Serialize[of h "[]"] by (simp add: length_Serialize)
  have le: "24 + unat (m_payloadSize h) \<le> length ?buf"
    using wf by (simp add: length_Serialize)
  have tk: "take (24 + unat (m_payloadSize h)) ?buf = Serialize h @ p"
    using wf by (simp add: length_Serialize)
  have dr: "drop (24 + unat (m_payloadSize h)) ?buf = ?tail"
    using wf by (simp add: length_Serialize)
  have "reassemble ?buf msgs = reassemble ?tail (msgs @ [Serialize h @ p])"
    using reassemble_whole[OF l d wf(2) le, of msgs] by (simp only: tk dr)
  also have "\<dots> = Some ((msgs @ [Serialize h @ p]) @ map (\<lambda>f. Serialize (fst f) @ snd f) frames, rest)"
    using Cons.IH[of "msgs @ [Serialize h @ p]"] Cons.prems by simp
  finally show ?case by (simp add: f)
qed

text \<open>
  Claim C5, at a buffer that holds one header and nothing else, whose payload size
  field is \<open>0xFFFFFFFF\<close>. The message it announces has \<open>24 + 4294967295\<close> bytes, of
  which 24 are there, so the loop as claimed stops and keeps the 24 bytes. The code
  adds in 32 bits: the total is 23, the loop hands the first 23 bytes of the header to
  processing as a message, erases them and leaves one byte.
\<close>

theorem reassemble_total_size_wraps:
  "length (Serialize \<lparr>m_seq = 1, m_timestamp = 0, m_payloadSize = 4294967295,
                      m_l7Identifier = 0\<rparr>) = 24 \<and>
   GetSerializedSize + unat (4294967295 :: u32) = 4294967319 \<and>
   reassemble (Serialize \<lparr>m_seq = 1, m_timestamp = 0, m_payloadSize = 4294967295,
                          m_l7Identifier = 0\<rparr>) []
     = Some ([[0, 0, 0, 1, 0, 0, 0, 0, 0, 0, 0, 0, 255, 255, 255, 255, 0, 0, 0, 0, 0, 0, 0]],
             [0])"
proof -
  have "reassemble (Serialize \<lparr>m_seq = 1, m_timestamp = 0, m_payloadSize = 4294967295,
                          m_l7Identifier = 0\<rparr>) []
     = Some ([[0, 0, 0, 1, 0, 0, 0, 0, 0, 0, 0, 0, 255, 255, 255, 255, 0, 0, 0, 0, 0, 0, 0]],
             [0])"
    apply (subst reassemble.simps)
    apply (simp add: Serialize_bytes GetSerializedSize_def Deserialize_def)
    apply (subst reassemble.simps)
    apply (simp add: GetSerializedSize_def)
    done
  then show ?thesis
    by (simp add: Serialize_bytes GetSerializedSize_def)
qed

section \<open>Maglev: the table build\<close>

lemma prepare_entries_size_one:
  "\<exists>b\<in>set bs. weight b \<noteq> 0 \<Longrightarrow> prepare_entries h s 1 bs = Inl DivisionByZero"
  by (induction bs) (auto simp: Let_def)

text \<open>
  Claim C8, at the smallest table size the attribute checker admits, 1, with one
  backend of weight 1: the skip computation takes a remainder by
  \<open>m_tableSize - 1 = 0\<close>. The build guards against a table size of 0 only.
\<close>

theorem BuildTable_size_one_division_by_zero:
  "BuildTable m_hasher addr_str str_less 1
     [\<lparr>address = a, weight = 1, activeRequests = 0\<rparr>] = Some (Inl DivisionByZero)"
  by (simp add: BuildTable_def)



lemma pass_counter_step:
  fixes T :: u64 and p :: u32
  assumes "unat T < 2 ^ 31" and "unat p \<le> 2 * unat T"
  shows "unat (p + 1) = unat p + 1"
    and "(ucast (p + 1) > T * 2) = (2 * unat T < unat p + 1)"
proof -
  from assms have b: "unat p + 1 < 2 ^ 32" by simp
  then show p1: "unat (p + 1) = unat p + 1"
    by (simp add: unat_word_ariths)
  have "unat (p + 1) < 2 ^ 64"
    using unsigned_less[of "p + 1", where 'a = nat] by simp
  then have "unat (ucast (p + 1) :: u64) = unat (p + 1)"
    by (simp add: unsigned_ucast_eq take_bit_nat_eq_self)
  moreover have "unat (T * 2) = 2 * unat T"
    using assms(1) by (simp add: unat_word_ariths)
  ultimately show "(ucast (p + 1) > T * 2) = (2 * unat T < unat p + 1)"
    using p1 by (simp add: word_less_nat_alt)
qed











text \<open>
  The safety break is not reached by a build with a table size below \<open>2 ^ 21\<close>, where
  all the products and sums of the scores are below \<open>2 ^ 53\<close> and exact: an entry of
  the largest weight claims a slot in every pass, so the number of claimed slots
  stays ahead of the pass counter.
\<close>

lemma fill_pass_weights:
  "fill_pass T mw p es tbl n = Done (es', tbl', n') \<Longrightarrow> map e_weight es' = map e_weight es"
proof (induction T mw p es tbl n arbitrary: es' tbl' n' rule: fill_pass.induct)
  case (1 T mw p tbl n)
  then show ?case by auto
next
  case (2 T mw p entry rest tbl n)
  show ?case
  proof (cases "round53 (unat p * unat (e_weight entry)) < targetWeightScore entry")
    case True
    with "2.prems" obtain es1 where
      "fill_pass T mw p rest tbl n = Done (es1, tbl', n')" "es' = entry # es1"
      by (auto split: outcome.splits)
    with "2.IH"(1)[OF True] show ?thesis by simp
  next
    case False
    with "2.prems" obtain slot nxt where
      fs: "find_slot T tbl (e_offset entry) (e_skip entry) (nextIndexInPermutation entry)
             = Some (Inr (slot, nxt))"
      by (auto split: option.splits sum.splits)
    show ?thesis
    proof (cases "n + 1 = T")
      case True
      with False fs "2.prems" show ?thesis by (auto simp: Let_def)
    next
      case ne: False
      with False fs "2.prems" obtain es1 where
        "fill_pass T mw p rest (tbl[slot := e_address entry]) (n + 1) = Done (es1, tbl', n')"
        "map e_weight es' = e_weight entry # map e_weight es1"
        by (auto simp: Let_def split: outcome.splits prod.splits)
      with "2.IH"(2)[OF False fs refl refl refl refl refl ne] show ?thesis by simp
    qed
  qed
qed

lemma fill_pass_scores:
  "fill_pass T mw p es tbl n = Done (es', tbl', n') \<Longrightarrow>
   \<forall>e\<in>set es. targetWeightScore e \<le> B \<Longrightarrow> B + unat mw < 2 ^ 53 \<Longrightarrow>
   \<forall>e\<in>set es'. targetWeightScore e \<le> B + unat mw"
proof (induction T mw p es tbl n arbitrary: es' tbl' n' rule: fill_pass.induct)
  case (1 T mw p tbl n)
  then show ?case by auto
next
  case (2 T mw p entry rest tbl n)
  from "2.prems"(2) have rb: "\<forall>e\<in>set rest. targetWeightScore e \<le> B"
    and eb: "targetWeightScore entry \<le> B" by simp_all
  show ?case
  proof (cases "round53 (unat p * unat (e_weight entry)) < targetWeightScore entry")
    case True
    with "2.prems" obtain es1 where
      "fill_pass T mw p rest tbl n = Done (es1, tbl', n')" "es' = entry # es1"
      by (auto split: outcome.splits)
    with "2.IH"(1)[OF True _ rb "2.prems"(3)] eb show ?thesis by simp
  next
    case False
    with "2.prems" obtain slot nxt where
      fs: "find_slot T tbl (e_offset entry) (e_skip entry) (nextIndexInPermutation entry)
             = Some (Inr (slot, nxt))"
      by (auto split: option.splits sum.splits)
    have ex: "round53 (targetWeightScore entry + unat mw) = targetWeightScore entry + unat mw"
      using eb "2.prems"(3) by (simp add: round53_def)
    show ?thesis
    proof (cases "n + 1 = T")
      case True
      with False fs "2.prems"(1) have
        "es' = entry\<lparr>targetWeightScore := round53 (targetWeightScore entry + unat mw),
                       nextIndexInPermutation := nxt + 1,
                       slotsFilledCount := slotsFilledCount entry + 1\<rparr> # rest"
        by (auto simp: Let_def)
      with ex eb rb show ?thesis by auto
    next
      case ne: False
      with False fs "2.prems"(1) obtain es1 where
        "fill_pass T mw p rest (tbl[slot := e_address entry]) (n + 1) = Done (es1, tbl', n')"
        "es' = entry\<lparr>targetWeightScore := round53 (targetWeightScore entry + unat mw),
                       nextIndexInPermutation := nxt + 1,
                       slotsFilledCount := slotsFilledCount entry + 1\<rparr> # es1"
        by (auto simp: Let_def split: outcome.splits prod.splits)
      with "2.IH"(2)[OF False fs refl refl refl refl refl ne _ rb "2.prems"(3)] ex eb
      show ?thesis by simp
    qed
  qed
qed

lemma u64_succ:
  fixes n T :: u64
  assumes "n < T"
  shows "unat (n + 1) = unat n + 1" and "n + 1 \<le> T"
proof -
  from assms have "unat n < unat T" by (simp add: word_less_nat_alt)
  moreover have "unat T < 2 ^ 64" using unsigned_less[of T, where 'a = nat] by simp
  ultimately have "unat n + 1 < 2 ^ 64" by simp
  then show u: "unat (n + 1) = unat n + 1" by (simp add: unat_word_ariths)
  with \<open>unat n < unat T\<close> show "n + 1 \<le> T" by (simp add: word_le_nat_alt)
qed

lemma fill_pass_progress:
  "fill_pass T mw p es tbl n = Done (es', tbl', n') \<Longrightarrow> n < T \<Longrightarrow>
   unat p * unat mw < 2 ^ 53 \<Longrightarrow>
   n' \<le> T \<and> unat n \<le> unat n' \<and>
   ((\<exists>e\<in>set es. e_weight e = mw \<and> targetWeightScore e \<le> unat p * unat mw)
      \<longrightarrow> unat n < unat n')"
proof (induction T mw p es tbl n arbitrary: es' tbl' n' rule: fill_pass.induct)
  case (1 T mw p tbl n)
  then show ?case by auto
next
  case (2 T mw p entry rest tbl n)
  show ?case
  proof (cases "round53 (unat p * unat (e_weight entry)) < targetWeightScore entry")
    case True
    with "2.prems" obtain es1 where
      fp: "fill_pass T mw p rest tbl n = Done (es1, tbl', n')"
      by (auto split: outcome.splits)
    have "\<not> (e_weight entry = mw \<and> targetWeightScore entry \<le> unat p * unat mw)"
    proof
      assume a: "e_weight entry = mw \<and> targetWeightScore entry \<le> unat p * unat mw"
      with "2.prems"(3) have "round53 (unat p * unat (e_weight entry)) = unat p * unat mw"
        by (simp add: round53_def)
      with True a show False by simp
    qed
    with "2.IH"(1)[OF True fp "2.prems"(2,3)] show ?thesis by auto
  next
    case False
    with "2.prems" obtain slot nxt where
      fs: "find_slot T tbl (e_offset entry) (e_skip entry) (nextIndexInPermutation entry)
             = Some (Inr (slot, nxt))"
      by (auto split: option.splits sum.splits)
    note su = u64_succ[OF "2.prems"(2)]
    show ?thesis
    proof (cases "n + 1 = T")
      case True
      with False fs "2.prems"(1) have "n' = n + 1" by (auto simp: Let_def)
      with su show ?thesis by simp
    next
      case ne: False
      with su(2) have lt: "n + 1 < T" by simp
      from ne False fs "2.prems"(1) obtain es1 where
        fp: "fill_pass T mw p rest (tbl[slot := e_address entry]) (n + 1) = Done (es1, tbl', n')"
        by (auto simp: Let_def split: outcome.splits prod.splits)
      from "2.IH"(2)[OF False fs refl refl refl refl refl ne fp lt "2.prems"(3)] su(1)
      show ?thesis by simp
    qed
  qed
qed


lemma fill_loop_completes:
  assumes run: "fill_loop T mw p es tbl n = Some (Inr (r, q))"
    and T: "unat T < 2 ^ 21"
    and mx: "\<exists>e\<in>set es. e_weight e = mw"
    and sc: "\<forall>e\<in>set es. targetWeightScore e \<le> (unat p - 1) * unat mw"
    and p1: "1 \<le> unat p" and pn: "unat p \<le> unat n + 1"
  shows "m_tableBuilt r"
proof -
  let ?P = "\<lambda>(T :: u64) (mw :: u32) (p :: u32) (es :: MaglevBuildEntry list)
      (tbl :: InetSocketAddress list) (n :: u64) (y :: fault + maglev_state \<times> u32).
      \<forall>r q. y = Inr (r, q) \<longrightarrow> unat T < 2 ^ 21 \<longrightarrow> (\<exists>e\<in>set es. e_weight e = mw) \<longrightarrow>
        (\<forall>e\<in>set es. targetWeightScore e \<le> (unat p - 1) * unat mw) \<longrightarrow>
        1 \<le> unat p \<longrightarrow> unat p \<le> unat n + 1 \<longrightarrow> m_tableBuilt r"
  have "?P T mw p es tbl n (Inr (r, q))"
  proof (rule fill_loop.raw_induct[where P = ?P, OF _ run])
    fix loop :: "u64 \<Rightarrow> u32 \<Rightarrow> u32 \<Rightarrow> MaglevBuildEntry list \<Rightarrow> InetSocketAddress list \<Rightarrow> u64 \<Rightarrow>
                 (fault + maglev_state \<times> u32) option"
    fix T mw p es tbl n y
    assume IH: "\<And>T mw p es tbl n y. loop T mw p es tbl n = Some y \<Longrightarrow> ?P T mw p es tbl n y"
    assume body0: "(if \<not> n < T
        then Some (Inr (\<lparr>m_lookupTable = tbl, m_tableBuilt = True\<rparr>, p))
        else case fill_pass T mw p es tbl n of
            Diverges \<Rightarrow> None
          | Fault f \<Rightarrow> Some (Inl f)
          | Done (es', tbl', n') \<Rightarrow>
              let currentPass' = p + 1
              in if ucast currentPass' > T * 2 \<and> n' < T
                 then Some (Inr (\<lparr>m_lookupTable = [], m_tableBuilt = False\<rparr>, currentPass'))
                 else loop T mw currentPass' es' tbl' n') = Some y"
    show "?P T mw p es tbl n y"
    proof (intro allI impI)
      fix r q
      assume y: "y = Inr (r, q)" and T: "unat T < 2 ^ 21"
        and mx: "\<exists>e\<in>set es. e_weight e = mw"
        and sc: "\<forall>e\<in>set es. targetWeightScore e \<le> (unat p - 1) * unat mw"
        and p1: "1 \<le> unat p" and pn: "unat p \<le> unat n + 1"
      show "m_tableBuilt r"
      proof (cases "n < T")
        case False
        with body0 y show ?thesis by auto
      next
        case True
        then have nT: "unat n < unat T" by (simp add: word_less_nat_alt)
        with pn have pT: "unat p \<le> unat T" by simp
        from T have T31: "unat T < 2 ^ 31" by simp
        from pT have pb: "unat p \<le> 2 * unat T" by simp
        note st = pass_counter_step[OF T31 pb]
        have mwb: "unat mw < 2 ^ 32" using unsigned_less[of mw, where 'a = nat] by simp
        from pT T have "unat p < 2 ^ 21" by simp
        then have "unat p * unat mw < 2 ^ 21 * 2 ^ 32"
          using mwb by (intro mult_strict_mono) simp_all
        then have ex: "unat p * unat mw < 2 ^ 53" by simp
        from p1 have pm: "(unat p - 1) * unat mw + unat mw = unat p * unat mw"
          by (cases "unat p") simp_all
        show ?thesis
        proof (cases "fill_pass T mw p es tbl n")
          case Diverges
          with True body0 show ?thesis by simp
        next
          case (Fault f)
          with True body0 y show ?thesis by simp
        next
          case (Done res)
          obtain es' tbl' n' where res: "res = (es', tbl', n')" by (cases res)
          note fp = Done[unfolded res]
          from mx sc pm obtain e where "e \<in> set es" "e_weight e = mw"
            "targetWeightScore e \<le> unat p * unat mw"
            by (metis le_add1 le_trans)
          with fill_pass_progress[OF fp True ex]
          have pr: "n' \<le> T" "unat n < unat n'" by auto
          from fill_pass_scores[OF fp sc] pm ex
          have sc': "\<forall>e\<in>set es'. targetWeightScore e \<le> unat p * unat mw" by simp
          from fill_pass_weights[OF fp] mx
          have mx': "\<exists>e\<in>set es'. e_weight e = mw"
            by (metis (no_types, lifting) image_iff image_set)
          have noab: "\<not> (2 * unat T < unat p + 1 \<and> n' < T)"
          proof
            assume a: "2 * unat T < unat p + 1 \<and> n' < T"
            then have "unat n' < unat T" by (simp add: word_less_nat_alt)
            with pr(2) pn a show False by simp
          qed
          from True fp body0 noab
          have rec: "loop T mw (p + 1) es' tbl' n' = Some y"
            by (simp add: Let_def st(2) split: if_splits)
          from sc' st(1) have s2: "\<forall>e\<in>set es'. targetWeightScore e \<le> (unat (p + 1) - 1) * unat mw"
            by simp
          from st(1) pr(2) pn have b: "1 \<le> unat (p + 1)" "unat (p + 1) \<le> unat n' + 1"
            by simp_all
          from IH[OF rec] y T mx' s2 b show ?thesis by blast
        qed
      qed
    qed
  qed
  with T mx sc p1 pn show ?thesis by blast
qed

lemma max_weight_foldl:
  "foldl (\<lambda>m e. max m (e_weight e)) w es = w \<or>
   foldl (\<lambda>m e. max m (e_weight e)) w es \<in> e_weight ` set es"
proof (induction es arbitrary: w)
  case Nil
  then show ?case by simp
next
  case (Cons e es)
  from Cons.IH[of "max w (e_weight e)"] show ?case
    by (auto simp: max_def split: if_splits)
qed

lemma foldl_max_ge:
  "w \<le> foldl (\<lambda>m e. max m (e_weight e)) w es \<and>
   (\<forall>e\<in>set es. e_weight e \<le> foldl (\<lambda>m e. max m (e_weight e)) w es)"
proof (induction es arbitrary: w)
  case Nil
  then show ?case by simp
next
  case (Cons e es)
  from Cons.IH[of "max w (e_weight e)"] show ?case
    by (auto simp: max_def split: if_splits)
qed

lemma max_weight_mem:
  assumes "es \<noteq> []"
  shows "\<exists>e\<in>set es. e_weight e = max_weight es"
proof (cases "max_weight es = 0")
  case True
  from assms obtain e where e: "e \<in> set es" by (cases es) auto
  with foldl_max_ge[of 0 es] True have "e_weight e \<le> 0" by (simp add: max_weight_def)
  then have "e_weight e = 0" by simp
  with e True show ?thesis by auto
next
  case False
  with max_weight_foldl[of 0 es] show ?thesis by (auto simp: max_weight_def)
qed

lemma set_insert_entry: "set (insert_entry lt x ys) = insert x (set ys)"
  by (induction ys) auto

lemma set_sort_entries: "set (sort_entries lt es) = set es"
  by (induction es) (simp_all add: sort_entries_def set_insert_entry)

lemma prepare_entries_scores:
  "prepare_entries h s T bs = Inr es \<Longrightarrow> \<forall>e\<in>set es. targetWeightScore e = 0"
proof (induction bs arbitrary: es)
  case Nil
  then show ?case by simp
next
  case (Cons b bs)
  show ?case
  proof (cases "weight b = 0")
    case True
    with Cons.prems have "prepare_entries h s T bs = Inr es" by simp
    from Cons.IH[OF this] show ?thesis .
  next
    case False
    with Cons.prems obtain es1 where
      "prepare_entries h s T bs = Inr es1"
      "\<exists>off sk. es = mkMaglevBuildEntry (address b) (weight b) off sk # es1"
      by (auto simp: Let_def split: if_splits sum.splits)
    with Cons.IH[of es1] show ?thesis by (auto simp: mkMaglevBuildEntry_def)
  qed
qed

lemma prepare_entries_positive:
  "prepare_entries h s T bs = Inr es \<Longrightarrow> \<exists>b\<in>set bs. weight b \<noteq> 0 \<Longrightarrow> es \<noteq> []"
proof (induction bs arbitrary: es)
  case Nil
  then show ?case by simp
next
  case (Cons b bs)
  show ?case
  proof (cases "weight b = 0")
    case True
    with Cons.prems have "prepare_entries h s T bs = Inr es" "\<exists>b\<in>set bs. weight b \<noteq> 0"
      by auto
    from Cons.IH[OF this] show ?thesis .
  next
    case False
    with Cons.prems(1) show ?thesis
      by (auto simp: Let_def split: if_splits sum.splits)
  qed
qed

lemma BuildTable_completes:
  assumes b: "BuildTable h a s T bs = Some (Inr r)"
    and T: "unat T < 2 ^ 21" "T \<noteq> 0"
    and pos: "\<exists>b\<in>set bs. weight b \<noteq> 0"
  shows "m_tableBuilt r"
proof (cases "prepare_entries h a T bs")
  case (Inl f)
  with b T(2) pos show ?thesis by (auto simp: BuildTable_def split: if_splits)
next
  case (Inr es)
  from prepare_entries_positive[OF Inr pos] have ne: "es \<noteq> []" .
  from pos have "bs \<noteq> []" by auto
  with b Inr ne T(2) obtain q where
    run: "fill_loop T (max_weight es) 1 (sort_entries (entry_less a s) es)
           (replicate (unat T) AnyAddress) 0 = Some (Inr (r, q))"
    by (auto simp: BuildTable_def split: option.splits sum.splits)
  show ?thesis
  proof (rule fill_loop_completes[OF run T(1)])
    show "\<exists>e\<in>set (sort_entries (entry_less a s) es). e_weight e = max_weight es"
      using max_weight_mem[OF ne] by (simp add: set_sort_entries)
    show "\<forall>e\<in>set (sort_entries (entry_less a s) es).
            targetWeightScore e \<le> (unat (1 :: u32) - 1) * unat (max_weight es)"
      using prepare_entries_scores[OF Inr] by (simp add: set_sort_entries)
    show "1 \<le> unat (1 :: u32)" by simp
    show "unat (1 :: u32) \<le> unat (0 :: u64) + 1" by simp
  qed
qed


text \<open>
  The safety break itself, at any state of the loop: when the pass numbered
  \<open>2 * m_tableSize\<close> ends with a slot unclaimed, the loop returns with the table
  cleared and \<open>m_tableBuilt\<close> false.
\<close>

lemma fill_loop_abort:
  assumes "filledSlotsCount < m_tableSize"
    and "fill_pass m_tableSize maxWeight currentPass es tbl filledSlotsCount = Done (es', tbl', n')"
    and "n' < m_tableSize"
    and "unat m_tableSize < 2 ^ 31" and "unat currentPass = 2 * unat m_tableSize"
  shows "fill_loop m_tableSize maxWeight currentPass es tbl filledSlotsCount
          = Some (Inr (\<lparr>m_lookupTable = [], m_tableBuilt = False\<rparr>, currentPass + 1))"
proof -
  from assms(5) have "unat currentPass \<le> 2 * unat m_tableSize" by simp
  from pass_counter_step(2)[OF assms(4) this] assms(5)
  have "ucast (currentPass + 1) > m_tableSize * 2" by simp
  with assms(1,2,3) show ?thesis
    by (subst fill_loop.simps) (simp add: Let_def)
qed







section \<open>Peak-EWMA: metrics\<close>

lemma emplace_metric_foldl:
  "foldl (\<lambda>metrics b. emplace_metric n d metrics (address b)) m bs a =
     (case m a of
        Some x \<Rightarrow> Some x
      | None \<Rightarrow> if a \<in> address ` set bs then Some (mkEwmaMetric n d) else None)"
  by (induction bs arbitrary: m) (auto simp: emplace_metric_def split: option.splits)

lemma SetBackends_addresses: "address ` set (SetBackends backends) = fst ` set backends"
  by (induction backends) (auto simp: SetBackends_def mkBackendInfo_def)

text \<open>
  After \<open>SetBackends\<close> every address of the new list has a freshly constructed metric
  (no pending request, cost 0, time stamp now, the configured decay time), whatever
  it had before, and every other address has none.
\<close>

lemma PeakEwma_SetBackends_fresh_metrics:
  "m_backendMetrics (PeakEwma_SetBackends nowNs backends st) a =
     (if a \<in> fst ` set backends then Some (mkEwmaMetric nowNs (m_decayTime st)) else None)"
proof -
  have "m_backendMetrics (PeakEwma_SetBackends nowNs backends st) a
     = foldl (\<lambda>metrics b. emplace_metric nowNs (m_decayTime st) metrics (address b))
         Map.empty (SetBackends backends) a"
    by (simp add: PeakEwma_SetBackends_def Let_def)
  then show ?thesis
    by (simp add: emplace_metric_foldl SetBackends_addresses)
qed

text \<open>\<open>AddBackend\<close>, on the other hand, leaves the metric of a known address alone.\<close>

lemma PeakEwma_AddBackend_keeps_metric:
  "m_backendMetrics st a = Some m \<Longrightarrow>
   m_backendMetrics (PeakEwma_AddBackend nowNs a w st) a = Some m"
  by (simp add: PeakEwma_AddBackend_def Let_def)

lemma m_decayTime_kept:
  "m_decayTime (PeakEwma_SetBackends nowNs backends st) = m_decayTime st"
  "m_decayTime (PeakEwma_NotifyRequestSent a st) = m_decayTime st"
  "m_decayTime (PeakEwma_NotifyRequestFinished a st) = m_decayTime st"
  by (simp_all add: PeakEwma_SetBackends_def PeakEwma_NotifyRequestSent_def
      PeakEwma_NotifyRequestFinished_def Let_def split: option.splits)

lemma PeakEwma_two_sent:
  "m_backendMetrics
     (PeakEwma_NotifyRequestSent backend_A
       (PeakEwma_NotifyRequestSent backend_A
         (PeakEwma_SetBackends 0 [(backend_A, 1), (\<lparr>ipv4 = 167772162, port = 9\<rparr>, 1)]
            \<lparr>pe_backends = [], m_backendMetrics = Map.empty, m_decayTime = 10000000000\<rparr>)))
     backend_A
   = Some \<lparr>m_stampNs = 0, m_pending = 2, m_costNs = 0, m_decayTimeNs = 10000000000,
           m_decayTimeNsDouble = 10000000000, m_penaltyNs = 1000000000\<rparr>"
  by (simp add: PeakEwma_SetBackends_fresh_metrics PeakEwma_NotifyRequestSent_def
      IncrementPending_def mkEwmaMetric_def round53_def m_decayTime_kept)

text \<open>
  Claim C2, at a run of the selector. With a decay time of 10 s, \<open>SetBackends\<close> at
  time 0 lists 10.0.0.1:9 and 10.0.0.2:9, and two requests are sent to 10.0.0.1:9, so
  that its metric has two pending requests and the time stamp 0. A second
  \<open>SetBackends\<close> at 5 s lists 10.0.0.1:9 alone. The address is still present, but its
  metric is a new one: no pending request and the time stamp 5 s; when the two
  requests finish, the count stays at 0. \<open>AddBackend\<close> for the same address in the
  same state keeps the metric.
\<close>

theorem PeakEwma_SetBackends_discards_live_metric:
  "m_backendMetrics
     (PeakEwma_NotifyRequestSent backend_A
       (PeakEwma_NotifyRequestSent backend_A
         (PeakEwma_SetBackends 0 [(backend_A, 1), (\<lparr>ipv4 = 167772162, port = 9\<rparr>, 1)]
            \<lparr>pe_backends = [], m_backendMetrics = Map.empty, m_decayTime = 10000000000\<rparr>)))
     backend_A
   = Some \<lparr>m_stampNs = 0, m_pending = 2, m_costNs = 0, m_decayTimeNs = 10000000000,
           m_decayTimeNsDouble = 10000000000, m_penaltyNs = 1000000000\<rparr> \<and>
   m_backendMetrics
     (PeakEwma_SetBackends 5000000000 [(backend_A, 1)]
       (PeakEwma_NotifyRequestSent backend_A
         (PeakEwma_NotifyRequestSent backend_A
           (PeakEwma_SetBackends 0 [(backend_A, 1), (\<lparr>ipv4 = 167772162, port = 9\<rparr>, 1)]
              \<lparr>pe_backends = [], m_backendMetrics = Map.empty, m_decayTime = 10000000000\<rparr>))))
     backend_A
   = Some \<lparr>m_stampNs = 5000000000, m_pending = 0, m_costNs = 0, m_decayTimeNs = 10000000000,
           m_decayTimeNsDouble = 10000000000, m_penaltyNs = 1000000000\<rparr> \<and>
   m_backendMetrics
     (PeakEwma_NotifyRequestFinished backend_A
       (PeakEwma_NotifyRequestFinished backend_A
         (PeakEwma_SetBackends 5000000000 [(backend_A, 1)]
           (PeakEwma_NotifyRequestSent backend_A
             (PeakEwma_NotifyRequestSent backend_A
               (PeakEwma_SetBackends 0 [(backend_A, 1), (\<lparr>ipv4 = 167772162, port = 9\<rparr>, 1)]
                  \<lparr>pe_backends = [], m_backendMetrics = Map.empty,
                    m_decayTime = 10000000000\<rparr>))))))
     backend_A
   = Some \<lparr>m_stampNs = 5000000000, m_pending = 0, m_costNs = 0, m_decayTimeNs = 10000000000,
           m_decayTimeNsDouble = 10000000000, m_penaltyNs = 1000000000\<rparr> \<and>
   m_backendMetrics
     (PeakEwma_AddBackend 5000000000 backend_A 1
       (PeakEwma_NotifyRequestSent backend_A
         (PeakEwma_NotifyRequestSent backend_A
           (PeakEwma_SetBackends 0 [(backend_A, 1), (\<lparr>ipv4 = 167772162, port = 9\<rparr>, 1)]
              \<lparr>pe_backends = [], m_backendMetrics = Map.empty, m_decayTime = 10000000000\<rparr>))))
     backend_A
   = Some \<lparr>m_stampNs = 0, m_pending = 2, m_costNs = 0, m_decayTimeNs = 10000000000,
           m_decayTimeNsDouble = 10000000000, m_penaltyNs = 1000000000\<rparr>"
  by (simp add: PeakEwma_two_sent PeakEwma_AddBackend_keeps_metric
      PeakEwma_SetBackends_fresh_metrics PeakEwma_NotifyRequestFinished_def
      DecrementPending_def mkEwmaMetric_def round53_def m_decayTime_kept)

section \<open>Proxy core: balance of the notifications\<close>

lemmas proxy_simps =
  run_events_def initial_state_def HandleAccept_def HandleClientRead_def
  AttemptForwardRequest_def CleanupClient_def CleanupBackendSocket_def StopApplication_def
  HandleBackendConnectSuccess_def HandleBackendClose_def SendToBackend_def
  emplace_def erase_def note_sent_def note_finished_def finish_outstanding_def
  read_error_def drop_pending_of_def healthy_env_def send_failing_env_def Let_def

text \<open>
  Claim C1, on two runs that end with the proxy stopped.

  First run: a client is accepted and sends one request; the selector chooses
  \<open>backend_A\<close>, the core opens socket 2 to it, calls \<open>NotifyRequestSent\<close> and keeps
  a pending record; the client closes before the connect completes; the proxy stops.
  \<open>CleanupClient\<close> cleans up socket 2 through the client's backend map, and
  \<open>CleanupBackendSocket\<close> erases the pending record without a notification, so the
  later loop over the pending records finds nothing: one \<open>NotifyRequestSent\<close>, no
  \<open>NotifyRequestFinished\<close>. This holds whatever \<open>GetPeerName\<close> returns.

  Second run: the connect succeeds, the send time of the request is recorded, and
  \<open>Send\<close> fails; \<open>SendToBackend\<close> calls \<open>NotifyRequestFinished\<close> but leaves the
  send-time entry, so that the close of the backend socket calls it a second time:
  one \<open>NotifyRequestSent\<close>, two \<open>NotifyRequestFinished\<close>.
\<close>

theorem notify_calls_unbalanced:
  "sent_calls (run_events
      [(healthy_env pn, 0, Accept 1),
       (healthy_env pn, 1, ClientRead 1 [(1, Some backend_A, Some 2)]),
       (healthy_env pn, 2, ClientClose 1),
       (healthy_env pn, 3, Stop)] initial_state) = [backend_A] \<and>
   finished_calls (run_events
      [(healthy_env pn, 0, Accept 1),
       (healthy_env pn, 1, ClientRead 1 [(1, Some backend_A, Some 2)]),
       (healthy_env pn, 2, ClientClose 1),
       (healthy_env pn, 3, Stop)] initial_state) = [] \<and>
   sent_calls (run_events
      [(send_failing_env backend_A, 0, Accept 1),
       (send_failing_env backend_A, 1, ClientRead 1 [(1, Some backend_A, Some 2)]),
       (send_failing_env backend_A, 2, BackendConnectSuccess 2),
       (send_failing_env backend_A, 3, BackendClose 2),
       (send_failing_env backend_A, 4, Stop)] initial_state) = [backend_A] \<and>
   finished_calls (run_events
      [(send_failing_env backend_A, 0, Accept 1),
       (send_failing_env backend_A, 1, ClientRead 1 [(1, Some backend_A, Some 2)]),
       (send_failing_env backend_A, 2, BackendConnectSuccess 2),
       (send_failing_env backend_A, 3, BackendClose 2),
       (send_failing_env backend_A, 4, Stop)] initial_state) = [backend_A, backend_A]"
proof -
  have a: "run_events
      [(healthy_env pn, 0, Accept 1),
       (healthy_env pn, 1, ClientRead 1 [(1, Some backend_A, Some 2)]),
       (healthy_env pn, 2, ClientClose 1),
       (healthy_env pn, 3, Stop)] initial_state
     = initial_state\<lparr>sent_calls := [backend_A]\<rparr>"
    by (simp add: proxy_simps split: option.split)
  have b: "run_events
      [(send_failing_env backend_A, 0, Accept 1),
       (send_failing_env backend_A, 1, ClientRead 1 [(1, Some backend_A, Some 2)]),
       (send_failing_env backend_A, 2, BackendConnectSuccess 2),
       (send_failing_env backend_A, 3, BackendClose 2),
       (send_failing_env backend_A, 4, Stop)] initial_state
     = initial_state\<lparr>sent_calls := [backend_A], finished_calls := [backend_A, backend_A]\<rparr>"
    by (simp add: proxy_simps split: option.split)
  show ?thesis
    unfolding a b by (simp add: initial_state_def)
qed

section \<open>Active requests and requests in flight\<close>

lemma FindBackendInfo_cong:
  "map address xs = map address ys \<Longrightarrow> FindBackendInfo xs a = FindBackendInfo ys a"
proof (induction xs arbitrary: ys)
  case Nil then show ?case by simp
next
  case (Cons x xs)
  then obtain y ys' where ys: "ys = y # ys'" by (cases ys) auto
  with Cons.prems have "address x = address y" "map address xs = map address ys'" by auto
  with Cons.IH[of ys'] ys show ?case by simp
qed

lemma map_address_update:
  "i < length bs \<Longrightarrow> map address (bs[i := (bs ! i)\<lparr>activeRequests := v\<rparr>]) = map address bs"
  by (simp add: map_update list_update_same_conv)

lemma notify_addresses: "map address (notify LeastRequest n bs) = map address bs"
proof (cases n)
  case (Sent a)
  then show ?thesis
    using FindBackendInfo_Some[of bs a]
    by (auto simp: map_address_update split: option.splits)
next
  case (Finished a)
  then show ?thesis
    using FindBackendInfo_Some[of bs a]
    by (auto simp: map_address_update split: option.splits)
qed

lemma sum_active_update:
  assumes "i < length bs"
  shows "sum_active (bs[i := (bs ! i)\<lparr>activeRequests := v\<rparr>]) + unat (activeRequests (bs ! i))
           = sum_active bs + unat v"
proof -
  have "sum_list ((map (\<lambda>b. unat (activeRequests b)) bs)[i := unat v]) + (map (\<lambda>b. unat (activeRequests b)) bs) ! i
      = sum_list (map (\<lambda>b. unat (activeRequests b)) bs) + unat v"
  proof -
    have "(map (\<lambda>b. unat (activeRequests b)) bs) ! i \<in> set (map (\<lambda>b. unat (activeRequests b)) bs)"
      using assms by (metis length_map nth_mem)
    then have "(map (\<lambda>b. unat (activeRequests b)) bs) ! i \<le> sum_list (map (\<lambda>b. unat (activeRequests b)) bs)"
      by (simp add: member_le_sum_list)
    then show ?thesis
      using assms by (simp add: sum_list_update)
  qed
  then show ?thesis
    using assms by (simp add: sum_active_def map_update)
qed

lemma active_of_le_sum: "active_of bs a \<le> sum_active bs"
proof (cases "FindBackendInfo bs a")
  case None then show ?thesis by (simp add: active_of_def)
next
  case (Some i)
  then have "i < length bs" using FindBackendInfo_Some by blast
  then have "unat (activeRequests (bs ! i)) \<in> set (map (\<lambda>b. unat (activeRequests b)) bs)"
    by (metis length_map nth_map nth_mem)
  then show ?thesis
    using Some by (simp add: active_of_def sum_active_def member_le_sum_list)
qed

lemma active_of_update_other:
  assumes "FindBackendInfo bs a = Some i" and "a' \<noteq> a"
  shows "active_of (bs[i := (bs ! i)\<lparr>activeRequests := v\<rparr>]) a' = active_of bs a'"
proof -
  from assms(1) have i: "i < length bs" "address (bs ! i) = a" using FindBackendInfo_Some by blast+
  have f: "FindBackendInfo (bs[i := (bs ! i)\<lparr>activeRequests := v\<rparr>]) a' = FindBackendInfo bs a'"
    by (rule FindBackendInfo_cong) (simp add: map_address_update i)
  show ?thesis
  proof (cases "FindBackendInfo bs a'")
    case None with f show ?thesis by (simp add: active_of_def)
  next
    case (Some j)
    then have "address (bs ! j) = a'" using FindBackendInfo_Some by blast
    with i assms(2) have "j \<noteq> i" by auto
    with f Some show ?thesis by (simp add: active_of_def)
  qed
qed

lemma active_of_update_same:
  assumes "FindBackendInfo bs a = Some i"
  shows "active_of (bs[i := (bs ! i)\<lparr>activeRequests := v\<rparr>]) a = unat v"
proof -
  from assms(1) have i: "i < length bs" "address (bs ! i) = a" using FindBackendInfo_Some by blast+
  have f: "FindBackendInfo (bs[i := (bs ! i)\<lparr>activeRequests := v\<rparr>]) a = FindBackendInfo bs a"
    by (rule FindBackendInfo_cong) (simp add: map_address_update i)
  with assms i show ?thesis by (simp add: active_of_def)
qed


lemma sent_effect:
  assumes f: "FindBackendInfo bs a = Some i" and nowrap: "active_of bs a + 1 < 2 ^ 32"
  shows "sum_active (NotifyRequestSent LeastRequest a bs) = sum_active bs + 1"
    and "active_of (NotifyRequestSent LeastRequest a bs) a = active_of bs a + 1"
    and "a' \<noteq> a \<Longrightarrow> active_of (NotifyRequestSent LeastRequest a bs) a' = active_of bs a'"
proof -
  from f have i: "i < length bs" using FindBackendInfo_Some by blast
  have u: "unat (activeRequests (bs ! i) + 1) = unat (activeRequests (bs ! i)) + 1"
    using nowrap f by (simp add: active_of_def unat_word_ariths)
  show "sum_active (NotifyRequestSent LeastRequest a bs) = sum_active bs + 1"
    using sum_active_update[OF i, of "activeRequests (bs ! i) + 1"] f u by simp
  show "active_of (NotifyRequestSent LeastRequest a bs) a = active_of bs a + 1"
    using active_of_update_same[OF f, of "activeRequests (bs ! i) + 1"] f u
    by (simp add: active_of_def)
  show "a' \<noteq> a \<Longrightarrow> active_of (NotifyRequestSent LeastRequest a bs) a' = active_of bs a'"
    using active_of_update_other[OF f, of a' "activeRequests (bs ! i) + 1"] f by simp
qed

lemma finished_effect:
  assumes f: "FindBackendInfo bs a = Some i" and pos: "0 < active_of bs a"
  shows "sum_active (NotifyRequestFinished LeastRequest a bs) + 1 = sum_active bs"
    and "active_of (NotifyRequestFinished LeastRequest a bs) a + 1 = active_of bs a"
    and "a' \<noteq> a \<Longrightarrow> active_of (NotifyRequestFinished LeastRequest a bs) a' = active_of bs a'"
proof -
  from f have i: "i < length bs" using FindBackendInfo_Some by blast
  from pos f have nz: "activeRequests (bs ! i) \<noteq> 0" "0 < activeRequests (bs ! i)"
    by (auto simp: active_of_def unat_gt_0 word_greater_zero_iff)
  have u: "unat (activeRequests (bs ! i) - 1) + 1 = unat (activeRequests (bs ! i))"
    using nz(1) by (metis Suc_eq_plus1 add.commute unat_minus_one Suc_pred' unat_gt_0 add.commute)
  show "sum_active (NotifyRequestFinished LeastRequest a bs) + 1 = sum_active bs"
    using sum_active_update[OF i, of "activeRequests (bs ! i) - 1"] f u nz by simp
  show "active_of (NotifyRequestFinished LeastRequest a bs) a + 1 = active_of bs a"
    using active_of_update_same[OF f, of "activeRequests (bs ! i) - 1"] f u nz
    by (simp add: active_of_def)
  show "a' \<noteq> a \<Longrightarrow> active_of (NotifyRequestFinished LeastRequest a bs) a' = active_of bs a'"
    using active_of_update_other[OF f, of a' "activeRequests (bs ! i) - 1"] f nz by simp
qed


lemma count_sent_snoc:
  "count_sent (ns @ [n]) a = count_sent ns a + (if n = Sent a then 1 else 0)"
  by (simp add: count_sent_def)

lemma count_finished_snoc:
  "count_finished (ns @ [n]) a = count_finished ns a + (if n = Finished a then 1 else 0)"
  by (simp add: count_finished_def)

lemma count_sent_le: "count_sent ns a \<le> length ns"
  by (simp add: count_sent_def)

lemma totals_snoc:
  "sent_total (ns @ [Sent a]) = sent_total ns + 1"
  "sent_total (ns @ [Finished a]) = sent_total ns"
  "finished_total (ns @ [Sent a]) = finished_total ns"
  "finished_total (ns @ [Finished a]) = finished_total ns + 1"
  by (simp_all add: sent_total_def finished_total_def)

lemma run_notifications_Cons:
  "run_notifications sel (n # ns) bs = run_notifications sel ns (notify sel n bs)"
  by (simp add: run_notifications_def)

lemma notify_address_set: "address ` set (notify LeastRequest n bs) = address ` set bs"
  using notify_addresses[of n bs] by (metis list.set_map)

lemma run_invariant:
  assumes "matched pre ns"
    and "\<forall>n\<in>set ns. addr_of n \<in> address ` set bs"
    and "length pre + length ns < 2 ^ 32"
    and "\<forall>a\<in>address ` set bs. active_of bs a = in_flight_after pre a"
    and "sum_active bs = total_in_flight pre"
    and "\<forall>a. count_finished pre a \<le> count_sent pre a"
    and "finished_total pre \<le> sent_total pre"
  shows "sum_active (run_notifications LeastRequest ns bs) = total_in_flight (pre @ ns)"
  using assms
proof (induction ns arbitrary: pre bs)
  case Nil
  then show ?case by (simp add: run_notifications_def)
next
  case (Cons n ns)
  show ?case
  proof (cases n)
    case (Sent a)
    from Cons.prems(2) Sent have "a \<in> address ` set bs" by simp
    then obtain i where f: "FindBackendInfo bs a = Some i"
      using FindBackendInfo_None[of bs a] by (cases "FindBackendInfo bs a") auto
    have act: "active_of bs a = in_flight_after pre a"
      using Cons.prems(4) \<open>a \<in> address ` set bs\<close> by blast
    have "in_flight_after pre a \<le> length pre"
      using count_sent_le[of "pre" a] by (simp add: in_flight_after_def)
    with act Cons.prems(3) have nowrap: "active_of bs a + 1 < 2 ^ 32" by simp
    note e = sent_effect[OF f nowrap]
    let ?bs = "NotifyRequestSent LeastRequest a bs"
    let ?pre = "pre @ [Sent a]"
    have 1: "matched ?pre ns" using Cons.prems(1) Sent by simp
    have 2: "\<forall>n\<in>set ns. addr_of n \<in> address ` set ?bs"
      using Cons.prems(2) notify_address_set[of "Sent a" bs] by simp
    have 3: "length ?pre + length ns < 2 ^ 32" using Cons.prems(3) by simp
    have 4: "\<forall>a'\<in>address ` set ?bs. active_of ?bs a' = in_flight_after ?pre a'"
    proof
      fix a' assume "a' \<in> address ` set ?bs"
      then have a': "a' \<in> address ` set bs"
        using notify_address_set[of "Sent a" bs] by simp
      show "active_of ?bs a' = in_flight_after ?pre a'"
      proof (cases "a' = a")
        case True
        then show ?thesis
          using e(2) act Cons.prems(6)[rule_format, of a]
          by (simp add: in_flight_after_def count_sent_snoc count_finished_snoc)
      next
        case False
        then show ?thesis
          using e(3)[of a'] Cons.prems(4) a'
          by (simp add: in_flight_after_def count_sent_snoc count_finished_snoc)
      qed
    qed
    have 5: "sum_active ?bs = total_in_flight ?pre"
      using e(1) Cons.prems(5,7) by (simp add: total_in_flight_def totals_snoc)
    have 6: "\<forall>a'. count_finished ?pre a' \<le> count_sent ?pre a'"
      using Cons.prems(6) by (simp add: count_sent_snoc count_finished_snoc le_SucI)
    have 7: "finished_total ?pre \<le> sent_total ?pre"
      using Cons.prems(7) by (simp add: totals_snoc)
    from Cons.IH[OF 1 2 3 4 5 6 7] Sent show ?thesis
      by (simp add: run_notifications_Cons)
  next
    case (Finished a)
    from Cons.prems(2) Finished have ain: "a \<in> address ` set bs" by simp
    then obtain i where f: "FindBackendInfo bs a = Some i"
      using FindBackendInfo_None[of bs a] by (cases "FindBackendInfo bs a") auto
    have act: "active_of bs a = in_flight_after pre a"
      using Cons.prems(4) ain by blast
    have lt: "count_finished pre a < count_sent pre a"
      using Cons.prems(1) Finished by simp
    with act have pos: "0 < active_of bs a" by (simp add: in_flight_after_def)
    note e = finished_effect[OF f pos]
    have sumpos: "0 < sum_active bs"
      using pos active_of_le_sum[of bs a] by simp
    let ?bs = "NotifyRequestFinished LeastRequest a bs"
    let ?pre = "pre @ [Finished a]"
    have 1: "matched ?pre ns" using Cons.prems(1) Finished by simp
    have 2: "\<forall>n\<in>set ns. addr_of n \<in> address ` set ?bs"
      using Cons.prems(2) notify_address_set[of "Finished a" bs] by simp
    have 3: "length ?pre + length ns < 2 ^ 32" using Cons.prems(3) by simp
    have 4: "\<forall>a'\<in>address ` set ?bs. active_of ?bs a' = in_flight_after ?pre a'"
    proof
      fix a' assume "a' \<in> address ` set ?bs"
      then have a': "a' \<in> address ` set bs"
        using notify_address_set[of "Finished a" bs] by simp
      show "active_of ?bs a' = in_flight_after ?pre a'"
      proof (cases "a' = a")
        case True
        then show ?thesis
          using e(2) act
          by (simp add: in_flight_after_def count_sent_snoc count_finished_snoc)
      next
        case False
        then show ?thesis
          using e(3)[of a'] Cons.prems(4) a'
          by (simp add: in_flight_after_def count_sent_snoc count_finished_snoc)
      qed
    qed
    have 5: "sum_active ?bs = total_in_flight ?pre"
      using e(1) Cons.prems(5) by (simp add: total_in_flight_def totals_snoc)
    have 6: "\<forall>a'. count_finished ?pre a' \<le> count_sent ?pre a'"
      using Cons.prems(6) lt by (auto simp: count_sent_snoc count_finished_snoc)
    have 7: "finished_total ?pre \<le> sent_total ?pre"
      using sumpos Cons.prems(5) by (simp add: total_in_flight_def totals_snoc)
    from Cons.IH[OF 1 2 3 4 5 6 7] Finished show ?thesis
      by (simp add: run_notifications_Cons)
  qed
qed

lemma fresh_registry:
  assumes "\<forall>b\<in>set bs. activeRequests b = 0"
  shows "sum_active bs = 0" and "active_of bs a = 0"
proof -
  show "sum_active bs = 0"
    using assms by (induction bs) (simp_all add: sum_active_def)
  show "active_of bs a = 0"
    using assms FindBackendInfo_Some[of bs a]
    by (auto simp: active_of_def split: option.splits)
qed

lemma others_noop: "sel \<noteq> LeastRequest \<Longrightarrow> run_notifications sel ns bs = bs"
proof (induction ns arbitrary: bs)
  case Nil then show ?case by (simp add: run_notifications_def)
next
  case (Cons n ns)
  have "notify sel n bs = bs"
    using Cons.prems by (cases n; cases sel) simp_all
  with Cons show ?case by (simp add: run_notifications_Cons)
qed

text \<open>
  Claim C4 as stated fails for the weighted round-robin selector (and in the same way
  for the random, ring-hash, Maglev and Peak-EWMA selectors): after one
  \<open>NotifyRequestSent\<close> for a registered backend one request is in flight and the sum
  of \<open>activeRequests\<close> is still 0.
\<close>

theorem active_requests_all_selectors_counterexample:
  "sum_active (run_notifications WRR [Sent backend_A] (SetBackends [(backend_A, 1)])) = 0 \<and>
   total_in_flight [Sent backend_A] = 1"
  by (simp add: run_notifications_def SetBackends_def mkBackendInfo_def sum_active_def
      total_in_flight_def sent_total_def finished_total_def)

text \<open>
  Claim C4, amended. Only the least-request selector keeps \<open>activeRequests\<close>. For
  it, from a registry with no active request, after any run of fewer than \<open>2 ^ 32\<close>
  notifications, all for registered addresses, in which every
  \<open>NotifyRequestFinished\<close> is for an address with a request in flight, the sum of
  \<open>activeRequests\<close> over the registry is the number of requests in flight. For the
  five other selectors the notifications leave the registry, and so every
  \<open>activeRequests\<close>, unchanged.
\<close>

theorem active_requests_least_request_only:
  "(sel \<noteq> LeastRequest \<longrightarrow> run_notifications sel ns m_backends = m_backends) \<and>
   (matched [] ns \<and> (\<forall>n\<in>set ns. addr_of n \<in> address ` set m_backends) \<and>
    (\<forall>b\<in>set m_backends. activeRequests b = 0) \<and> length ns < 2 ^ 32 \<longrightarrow>
      sum_active (run_notifications LeastRequest ns m_backends) = total_in_flight ns)"
proof -
  have "sum_active (run_notifications LeastRequest ns m_backends) = total_in_flight ns"
    if h: "matched [] ns" "\<forall>n\<in>set ns. addr_of n \<in> address ` set m_backends"
      "\<forall>b\<in>set m_backends. activeRequests b = 0" "length ns < 2 ^ 32"
    using run_invariant[of "[]" ns m_backends] h fresh_registry[OF h(3)]
    by (simp add: in_flight_after_def count_sent_def count_finished_def total_in_flight_def
        sent_total_def finished_total_def)
  then show ?thesis
    using others_noop[of sel ns m_backends] by blast
qed

theorem active_requests_least_request_only_witness:
  "run_notifications Maglev [Sent backend_A] (SetBackends [(backend_A, 1)])
     = SetBackends [(backend_A, 1)] \<and>
   sum_active (run_notifications LeastRequest [Sent backend_A, Sent backend_A, Finished backend_A]
                 (SetBackends [(backend_A, 1)])) = 1 \<and>
   total_in_flight [Sent backend_A, Sent backend_A, Finished backend_A] = 1"
proof -
  note t = active_requests_least_request_only
    [of _ "[Sent backend_A, Sent backend_A, Finished backend_A]" "SetBackends [(backend_A, 1)]"]
  have h: "matched [] [Sent backend_A, Sent backend_A, Finished backend_A] \<and>
      (\<forall>n\<in>set [Sent backend_A, Sent backend_A, Finished backend_A].
          addr_of n \<in> address ` set (SetBackends [(backend_A, 1)])) \<and>
      (\<forall>b\<in>set (SetBackends [(backend_A, 1)]). activeRequests b = 0) \<and>
      length [Sent backend_A, Sent backend_A, Finished backend_A] < 2 ^ 32"
    by (simp add: SetBackends_def mkBackendInfo_def count_sent_def count_finished_def)
  have a: "sum_active (run_notifications LeastRequest
              [Sent backend_A, Sent backend_A, Finished backend_A]
              (SetBackends [(backend_A, 1)])) =
           total_in_flight [Sent backend_A, Sent backend_A, Finished backend_A]"
    using t h by blast
  have b: "total_in_flight [Sent backend_A, Sent backend_A, Finished backend_A] = 1"
    by (simp add: total_in_flight_def sent_total_def finished_total_def)
  have c: "run_notifications Maglev [Sent backend_A] (SetBackends [(backend_A, 1)])
     = SetBackends [(backend_A, 1)]"
    using active_requests_least_request_only
      [of Maglev "[Sent backend_A]" "SetBackends [(backend_A, 1)]"] by simp
  from a b c show ?thesis by simp
qed

section \<open>Weighted round-robin\<close>

text \<open>
  When the largest weight is below \<open>2 ^ 31\<close> the 32-bit arithmetic of
  \<open>ChooseBackend\<close> agrees with the arithmetic on integers: in every state that
  satisfies \<open>wrr_inv\<close> the loop returns, within one round of the backends, the index
  that the selection as specified returns, and leaves a state that satisfies
  \<open>wrr_inv\<close> again. \<open>RecalculateWrrState\<close> establishes \<open>wrr_inv\<close> when some
  weight is positive, and leaves \<open>m_maxWeight = 0\<close> when none is.
\<close>

lemma sint_u32_small: "uint (w::u32) < 2 ^ 31 \<Longrightarrow> sint w = uint w"
proof -
  assume a: "uint w < 2 ^ 31"
  have "0 \<le> uint w" by (rule uint_ge_0)
  then have "- 2147483648 \<le> uint w" by linarith
  then have "- (2 ^ 31) \<le> uint w" by simp
  then have "signed_take_bit 31 (uint w) = uint w"
    using a by (rule signed_take_bit_int_eq_self)
  moreover have "sint w = signed_take_bit 31 (uint w)"
    by (simp add: sint_uint)
  ultimately show ?thesis by simp
qed

lemma sint_u32_big: "2 ^ 31 \<le> uint (w::u32) \<Longrightarrow> sint w < 0"
proof -
  assume a: "2 ^ 31 \<le> uint w"
  have "signed_take_bit 31 (uint w) \<le> uint w - 2 ^ Suc 31"
    using a by (rule signed_take_bit_int_less_eq)
  then have 1: "signed_take_bit 31 (uint w) \<le> uint w - 4294967296"
    by simp
  have 2: "uint w < 4294967296"
    using uint_bounded[of w] by simp
  have 3: "sint w = signed_take_bit 31 (uint w)"
    by (simp add: sint_uint)
  from 1 2 3 show ?thesis by linarith
qed

lemma marker_step:
  fixes cw g m :: u32
  assumes "cw \<le> m" "uint m < 2 ^ 31" "0 < g" "g \<le> m"
  shows "(sint (cw - g) \<le> 0) = (uint cw - uint g \<le> 0)"
    and "\<not> sint (cw - g) \<le> 0 \<Longrightarrow> uint (cw - g) = uint cw - uint g"
    and "\<not> sint (cw - g) \<le> 0 \<Longrightarrow> cw - g \<le> m"
proof -
  have b: "uint cw \<le> uint m" "uint g \<le> uint m" "0 < uint g"
    using assms by (simp_all add: word_le_def word_less_def)
  have nn: "0 \<le> uint cw" "0 \<le> uint (cw - g)" by (rule uint_ge_0)+
  have m31: "uint m < 2147483648" using assms(2) by simp
  have A: "(sint (cw - g) \<le> 0) = (uint cw - uint g \<le> 0) \<and>
           (\<not> sint (cw - g) \<le> 0 \<longrightarrow> uint (cw - g) = uint cw - uint g)"
  proof (cases "uint g \<le> uint cw")
    case True
    then have u: "uint (cw - g) = uint cw - uint g"
      by (simp add: uint_sub_lem[symmetric])
    with b m31 have "uint (cw - g) < 2 ^ 31" by simp
    then have "sint (cw - g) = uint cw - uint g"
      using sint_u32_small[of "cw - g"] u by simp
    with u show ?thesis by simp
  next
    case False
    then have u: "uint (cw - g) = uint cw - uint g + 4294967296"
      by (simp add: uint_sub_if')
    have "2147483648 \<le> uint (cw - g)"
      using u b m31 nn(1) by linarith
    then have "2 ^ 31 \<le> uint (cw - g)" by simp
    then have "sint (cw - g) < 0" by (rule sint_u32_big)
    with False show ?thesis by simp
  qed
  then show "(sint (cw - g) \<le> 0) = (uint cw - uint g \<le> 0)"
    and c: "\<not> sint (cw - g) \<le> 0 \<Longrightarrow> uint (cw - g) = uint cw - uint g"
    by blast+
  show "\<not> sint (cw - g) \<le> 0 \<Longrightarrow> cw - g \<le> m"
    using c b by (simp add: word_le_def)
qed

lemma ring_distance_zero:
  fixes i j n :: nat
  assumes "i < n" "j < n" "(j + n - i) mod n = 0"
  shows "i = j"
proof -
  from assms(3) obtain q where q: "j + n - i = n * q" by (auto simp: mod_eq_0_iff_dvd dvd_def)
  have "0 < j + n - i" "j + n - i < 2 * n" using assms by simp_all
  with q have "0 < q" "q < 2" by (auto simp: zero_less_mult_iff)
  then have "q = 1" by simp
  with q assms show ?thesis by simp
qed

lemma ring_distance_step:
  fixes i j n :: nat
  assumes "i < n" "j < n" "(j + n - i) mod n = Suc k"
  shows "(j + n - ((i + 1) mod n)) mod n = k"
proof (cases "i < j")
  case True
  then have e: "j + n - i = n + (j - i)" by simp
  have "(n + (j - i)) mod n = (j - i) mod n" by simp
  also have "\<dots> = j - i" using assms by simp
  finally have "(j + n - i) mod n = j - i" using e by simp
  with assms(3) have k: "j - i = Suc k" by simp
  have i1: "(i + 1) mod n = i + 1" using True assms by simp
  have e2: "j + n - (i + 1) = n + (j - i - 1)" using True by simp
  have "(n + (j - i - 1)) mod n = (j - i - 1) mod n" by simp
  also have "\<dots> = j - i - 1" using assms by simp
  finally have "(j + n - (i + 1)) mod n = j - i - 1" using e2 by simp
  then show ?thesis using k i1 by simp
next
  case False
  then have ji: "j \<le> i" by simp
  show ?thesis
  proof (cases "j = i")
    case True
    with assms show ?thesis by simp
  next
    case False
    with ji have lt: "j < i" by simp
    then have "j + n - i < n" "0 < j + n - i" using assms by simp_all
    then have k: "j + n - i = Suc k" using assms(3) by simp
    show ?thesis
    proof (cases "i + 1 = n")
      case True
      then have "(i + 1) mod n = 0" by simp
      then show ?thesis using True k assms by simp
    next
      case False
      then have "(i + 1) mod n = i + 1" using assms by simp
      moreover have "j + n - (i + 1) < n" using lt assms by simp
      ultimately show ?thesis using k by simp
    qed
  qed
qed


lemma wrr_loop_step:
  assumes inv: "wrr_inv bs st"
  defines "i \<equiv> (m_currentIndex st + 1) mod length bs"
  defines "cw2 \<equiv> (if i = 0
                   then (if sint (m_currentWeight st - m_gcdWeight st) \<le> 0 then m_maxWeight st
                         else m_currentWeight st - m_gcdWeight st)
                   else m_currentWeight st)"
  defines "st2 \<equiv> st\<lparr>m_currentIndex := i, m_currentWeight := cw2\<rparr>"
  shows "wrr_loop bs st =
           (if 0 < weight (bs ! i) \<and> cw2 \<le> weight (bs ! i) then Some (Some i, st2)
            else wrr_loop bs st2)"
    and "wrr_inv bs st2"
    and "uint cw2 =
           (if i = 0 \<and> uint (m_currentWeight st) - uint (m_gcdWeight st) \<le> 0
            then uint (m_maxWeight st)
            else if i = 0 then uint (m_currentWeight st) - uint (m_gcdWeight st)
            else uint (m_currentWeight st))"
    and "i < length bs"
proof -
  from inv have ne: "bs \<noteq> []" and mx: "m_maxWeight st \<noteq> 0"
    and facts: "m_currentWeight st \<le> m_maxWeight st" "uint (m_maxWeight st) < 2 ^ 31"
      "0 < m_gcdWeight st" "m_gcdWeight st \<le> m_maxWeight st"
    by (auto simp: wrr_inv_def)
  show il: "i < length bs" using ne by (simp add: i_def)
  note ms = marker_step[OF facts]
  show "wrr_loop bs st =
           (if 0 < weight (bs ! i) \<and> cw2 \<le> weight (bs ! i) then Some (Some i, st2)
            else wrr_loop bs st2)"
    apply (subst wrr_loop.simps)
    unfolding Let_def i_def[symmetric]
    using il mx by (auto simp: cw2_def st2_def)
  show "uint cw2 =
           (if i = 0 \<and> uint (m_currentWeight st) - uint (m_gcdWeight st) \<le> 0
            then uint (m_maxWeight st)
            else if i = 0 then uint (m_currentWeight st) - uint (m_gcdWeight st)
            else uint (m_currentWeight st))"
    using ms(1,2) by (simp add: cw2_def)
  have "cw2 \<le> m_maxWeight st"
    using ms(3) facts(1) by (simp add: cw2_def)
  then show "wrr_inv bs st2"
    using inv il by (simp add: wrr_inv_def st2_def)
qed


lemma smooth_wrr_spec_step:
  assumes "i = (idx + 1) mod length ws"
    and "c2 = (if i = 0 \<and> c - g \<le> 0 then mx else if i = 0 then c - g else c)"
  shows "smooth_wrr_spec (Suc f) ws mx g (idx, c) =
           (if ws ! i > 0 \<and> ws ! i \<ge> c2 then Some (i, c2)
            else smooth_wrr_spec f ws mx g (i, c2))"
  unfolding assms by (auto simp: Let_def)

lemma wrr_loop_refines:
  assumes "wrr_inv bs st" and "j < length bs" and "weight (bs ! j) = m_maxWeight st"
    and "(j + length bs - (m_currentIndex st + 1) mod length bs) mod length bs = k"
    and "k < fuel"
  shows "\<exists>i st'. wrr_loop bs st = Some (Some i, st') \<and> i < length bs \<and>
           0 < weight (bs ! i) \<and> m_currentIndex st' = i \<and>
           m_maxWeight st' = m_maxWeight st \<and> m_gcdWeight st' = m_gcdWeight st \<and>
           wrr_inv bs st' \<and>
           smooth_wrr_spec fuel (map (\<lambda>b. uint (weight b)) bs)
             (uint (m_maxWeight st)) (uint (m_gcdWeight st))
             (m_currentIndex st, uint (m_currentWeight st))
           = Some (i, uint (m_currentWeight st'))"
  using assms
proof (induction k arbitrary: st fuel)
  case (0 st fuel)
  define i where "i = (m_currentIndex st + 1) mod length bs"
  define cw2 where "cw2 = (if i = 0
                   then (if sint (m_currentWeight st - m_gcdWeight st) \<le> 0 then m_maxWeight st
                         else m_currentWeight st - m_gcdWeight st)
                   else m_currentWeight st)"
  define st2 where "st2 = st\<lparr>m_currentIndex := i, m_currentWeight := cw2\<rparr>"
  note s = wrr_loop_step[OF "0.prems"(1), folded i_def, folded cw2_def, folded st2_def]
  from "0.prems"(4) have "i = j"
    using ring_distance_zero[OF s(4) "0.prems"(2)] by (simp add: i_def)
  from s(2) have le: "cw2 \<le> m_maxWeight st" and pos: "0 < m_maxWeight st"
    by (simp_all add: wrr_inv_def st2_def)
  with \<open>i = j\<close> "0.prems"(3) have acc: "0 < weight (bs ! i) \<and> cw2 \<le> weight (bs ! i)"
    by simp
  then have acci: "0 < uint (weight (bs ! i)) \<and> uint cw2 \<le> uint (weight (bs ! i))"
    by (simp add: word_le_def word_less_def)
  from "0.prems"(5) obtain f where f: "fuel = Suc f" by (cases fuel) auto
  have i_ws: "i = (m_currentIndex st + 1) mod length (map (\<lambda>b. uint (weight b)) bs)"
    by (simp add: i_def)
  note sp = smooth_wrr_spec_step[OF i_ws s(3), of f]
  have nth: "map (\<lambda>b. uint (weight b)) bs ! i = uint (weight (bs ! i))"
    using s(4) by simp
  have spec: "smooth_wrr_spec fuel (map (\<lambda>b. uint (weight b)) bs)
             (uint (m_maxWeight st)) (uint (m_gcdWeight st))
             (m_currentIndex st, uint (m_currentWeight st)) = Some (i, uint cw2)"
    using sp nth acci by (simp add: f)
  have "wrr_loop bs st = Some (Some i, st2)"
    using s(1) acc by simp
  with s(2,4) acc spec show ?case
    by (auto simp: st2_def intro!: exI[of _ i] exI[of _ st2])
next
  case (Suc k st fuel)
  define i where "i = (m_currentIndex st + 1) mod length bs"
  define cw2 where "cw2 = (if i = 0
                   then (if sint (m_currentWeight st - m_gcdWeight st) \<le> 0 then m_maxWeight st
                         else m_currentWeight st - m_gcdWeight st)
                   else m_currentWeight st)"
  define st2 where "st2 = st\<lparr>m_currentIndex := i, m_currentWeight := cw2\<rparr>"
  note s = wrr_loop_step[OF Suc.prems(1), folded i_def, folded cw2_def, folded st2_def]
  from Suc.prems(5) obtain f where f: "fuel = Suc f" "k < f" by (cases fuel) auto
  have i_ws: "i = (m_currentIndex st + 1) mod length (map (\<lambda>b. uint (weight b)) bs)"
    by (simp add: i_def)
  note sp = smooth_wrr_spec_step[OF i_ws s(3), of f]
  have nth: "map (\<lambda>b. uint (weight b)) bs ! i = uint (weight (bs ! i))"
    using s(4) by simp
  have acc_iff: "(0 < weight (bs ! i) \<and> cw2 \<le> weight (bs ! i)) =
      (0 < uint (weight (bs ! i)) \<and> uint cw2 \<le> uint (weight (bs ! i)))"
    by (simp add: word_le_def word_less_def)
  show ?case
  proof (cases "0 < weight (bs ! i) \<and> cw2 \<le> weight (bs ! i)")
    case True
    then have acci: "0 < uint (weight (bs ! i)) \<and> uint cw2 \<le> uint (weight (bs ! i))"
      using acc_iff by simp
    have spec: "smooth_wrr_spec fuel (map (\<lambda>b. uint (weight b)) bs)
             (uint (m_maxWeight st)) (uint (m_gcdWeight st))
             (m_currentIndex st, uint (m_currentWeight st)) = Some (i, uint cw2)"
      using sp nth acci by (simp add: f)
    have "wrr_loop bs st = Some (Some i, st2)"
      using s(1) True by simp
    with s(2,4) True spec show ?thesis
      by (auto simp: st2_def intro!: exI[of _ i] exI[of _ st2])
  next
    case False
    then have nacci: "\<not> (0 < uint (weight (bs ! i)) \<and> uint cw2 \<le> uint (weight (bs ! i)))"
      using acc_iff by simp
    have loop: "wrr_loop bs st = wrr_loop bs st2"
      using s(1) False by simp
    have spec: "smooth_wrr_spec fuel (map (\<lambda>b. uint (weight b)) bs)
             (uint (m_maxWeight st)) (uint (m_gcdWeight st))
             (m_currentIndex st, uint (m_currentWeight st))
         = smooth_wrr_spec f (map (\<lambda>b. uint (weight b)) bs)
             (uint (m_maxWeight st)) (uint (m_gcdWeight st)) (i, uint cw2)"
      using sp nth nacci by (simp add: f)
    have d: "(j + length bs - (m_currentIndex st2 + 1) mod length bs) mod length bs = k"
      using ring_distance_step[OF s(4) Suc.prems(2), of k] Suc.prems(4)
      by (simp add: st2_def i_def)
    have j2: "weight (bs ! j) = m_maxWeight st2"
      using Suc.prems(3) by (simp add: st2_def)
    from Suc.IH[OF s(2) Suc.prems(2) j2 d f(2)]
    obtain i' st' where r: "wrr_loop bs st2 = Some (Some i', st')" "i' < length bs"
      "0 < weight (bs ! i')" "m_currentIndex st' = i'" "m_maxWeight st' = m_maxWeight st2"
      "m_gcdWeight st' = m_gcdWeight st2" "wrr_inv bs st'"
      "smooth_wrr_spec f (map (\<lambda>b. uint (weight b)) bs)
             (uint (m_maxWeight st2)) (uint (m_gcdWeight st2))
             (m_currentIndex st2, uint (m_currentWeight st2))
           = Some (i', uint (m_currentWeight st'))"
      by blast
    have "m_maxWeight st2 = m_maxWeight st" "m_gcdWeight st2 = m_gcdWeight st"
      "m_currentIndex st2 = i" "m_currentWeight st2 = cw2"
      by (simp_all add: st2_def)
    with r loop spec show ?thesis
      by (auto intro!: exI[of _ i'] exI[of _ st'])
  qed
qed


lemma unat_gcd_word:
  fixes g w :: u32
  assumes "0 < w"
  shows "unat (of_nat (gcd (unat g) (unat w)) :: u32) = gcd (unat g) (unat w)"
proof -
  have "0 < unat w" using assms by (simp add: word_less_nat_alt)
  then have "gcd (unat g) (unat w) \<le> unat w" by (simp add: gcd_le2_nat)
  moreover have "unat w < 2 ^ 32" using unsigned_less[of w, where 'a = nat] by simp
  ultimately have "gcd (unat g) (unat w) < 2 ^ LENGTH(32)" by simp
  then show ?thesis by (simp add: unat_of_nat)
qed

lemma wrr_scan_props:
  assumes "wrr_scan bs (mw, g, fnd, cnt) = (mw', g', fnd', cnt')"
    and "fnd \<longrightarrow> 0 < mw \<and> 0 < g \<and> unat g dvd unat mw \<and> mw \<in> W \<and> 0 < cnt"
    and "\<not> fnd \<longrightarrow> mw = 0 \<and> cnt = 0"
  shows "(fnd' \<longleftrightarrow> fnd \<or> (\<exists>b\<in>set bs. 0 < weight b)) \<and>
         (fnd' \<longrightarrow> 0 < mw' \<and> 0 < g' \<and> unat g' dvd unat mw' \<and>
                    mw' \<in> W \<union> weight ` set bs \<and> 0 < cnt') \<and>
         (\<not> fnd' \<longrightarrow> mw' = 0 \<and> cnt' = 0)"
  using assms
proof (induction bs arbitrary: mw g fnd cnt W)
  case Nil
  then show ?case by auto
next
  case (Cons b bs)
  show ?case
  proof (cases "0 < weight b")
    case False
    with Cons.prems(1) have "wrr_scan bs (mw, g, fnd, cnt) = (mw', g', fnd', cnt')" by simp
    from Cons.IH[OF this Cons.prems(2,3)] False show ?thesis by auto
  next
    case True
    define mw1 where "mw1 = max mw (weight b)"
    define g1 where "g1 = (if \<not> fnd then weight b else of_nat (gcd (unat g) (unat (weight b))))"
    from Cons.prems(1) True have sc: "wrr_scan bs (mw1, g1, True, Suc cnt) = (mw', g', fnd', cnt')"
      by (simp add: mw1_def g1_def)
    have wpos: "0 < unat (weight b)" using True by (simp add: word_less_nat_alt)
    have p: "True \<longrightarrow> 0 < mw1 \<and> 0 < g1 \<and> unat g1 dvd unat mw1 \<and> mw1 \<in> insert (weight b) W \<and> 0 < Suc cnt"
    proof (cases fnd)
      case False
      with Cons.prems(3) have "mw = 0" by simp
      then have "mw1 = weight b" by (simp add: mw1_def max_def)
      moreover have "g1 = weight b" using False by (simp add: g1_def)
      ultimately show ?thesis using True by simp
    next
      case fnd: True
      with Cons.prems(2) have h: "0 < mw" "0 < g" "unat g dvd unat mw" "mw \<in> W" by simp_all
      have ug: "unat g1 = gcd (unat g) (unat (weight b))"
        using fnd unat_gcd_word[OF True, of g] by (simp add: g1_def)
      have "0 < gcd (unat g) (unat (weight b))" using wpos by simp
      with ug have g1pos: "0 < g1" by (simp add: word_less_nat_alt)
      have "unat g1 dvd unat mw" "unat g1 dvd unat (weight b)"
        using ug h(3) by (auto intro: dvd_trans[OF gcd_dvd1])
      then have d: "unat g1 dvd unat mw1" by (simp add: mw1_def max_def)
      have "0 < mw1" using True h(1) by (simp add: mw1_def max_def)
      moreover have "mw1 \<in> insert (weight b) W" using h(4) by (simp add: mw1_def max_def)
      ultimately show ?thesis using g1pos d by simp
    qed
    from Cons.IH[OF sc p] True show ?thesis by auto
  qed
qed

lemma Recalculate_no_positive:
  assumes "\<not> (\<exists>b\<in>set bs. 0 < weight b)"
  shows "m_maxWeight (RecalculateWrrState bs) = 0"
proof (cases "bs = []")
  case True
  then show ?thesis by (simp add: RecalculateWrrState_def)
next
  case False
  obtain mw' g' fnd' cnt' where sc: "wrr_scan bs (0, 0, False, 0) = (mw', g', fnd', cnt')"
    by (metis prod_cases4)
  from wrr_scan_props[OF sc, of "{}"] assms have "cnt' = 0" by auto
  with sc False show ?thesis by (simp add: RecalculateWrrState_def)
qed

lemma Recalculate_inv:
  assumes "\<exists>b\<in>set bs. 0 < weight b" and "\<forall>b\<in>set bs. uint (weight b) < 2 ^ 31"
  shows "wrr_inv bs (RecalculateWrrState bs)"
proof -
  from assms(1) have ne: "bs \<noteq> []" by auto
  obtain mw' g' fnd' cnt' where sc: "wrr_scan bs (0, 0, False, 0) = (mw', g', fnd', cnt')"
    by (metis prod_cases4)
  from wrr_scan_props[OF sc, of "{}"] assms(1)
  have p: "0 < mw'" "0 < g'" "unat g' dvd unat mw'" "mw' \<in> weight ` set bs" "0 < cnt'"
    by auto
  have st: "RecalculateWrrState bs =
      \<lparr>m_currentIndex = length bs - 1, m_currentWeight = 0, m_maxWeight = mw', m_gcdWeight = g'\<rparr>"
    using sc ne p by (simp add: RecalculateWrrState_def)
  from p(4) obtain j where j: "j < length bs" "weight (bs ! j) = mw'"
    by (auto simp: in_set_conv_nth)
  have "uint mw' < 2 ^ 31" using assms(2) p(4) by auto
  moreover have "g' \<le> mw'"
  proof -
    have "0 < unat mw'" using p(1) by (simp add: word_less_nat_alt)
    with p(3) have "unat g' \<le> unat mw'" by (simp add: dvd_imp_le)
    then show ?thesis by (simp add: word_le_nat_alt)
  qed
  ultimately show ?thesis
    using ne j p(1,2) by (auto simp: wrr_inv_def st)
qed

lemma WRR_ChooseBackend_refines:
  assumes "wrr_inv bs st"
  shows "\<exists>i st'. WRR_ChooseBackend bs st = Some (Some (address (bs ! i)), st') \<and>
           i < length bs \<and> 0 < weight (bs ! i) \<and> m_currentIndex st' = i \<and> wrr_inv bs st' \<and>
           smooth_wrr_spec (length bs) (map (\<lambda>b. uint (weight b)) bs)
             (uint (m_maxWeight st)) (uint (m_gcdWeight st))
             (m_currentIndex st, uint (m_currentWeight st))
           = Some (i, uint (m_currentWeight st'))"
proof -
  from assms obtain j where j: "j < length bs" "weight (bs ! j) = m_maxWeight st"
    and ne: "bs \<noteq> []" and mx: "m_maxWeight st \<noteq> 0"
    by (auto simp: wrr_inv_def)
  have k: "(j + length bs - (m_currentIndex st + 1) mod length bs) mod length bs < length bs"
    using ne by simp
  from wrr_loop_refines[OF assms j refl k]
  obtain i st' where r: "wrr_loop bs st = Some (Some i, st')" "i < length bs"
    "0 < weight (bs ! i)" "m_currentIndex st' = i" "wrr_inv bs st'"
    "smooth_wrr_spec (length bs) (map (\<lambda>b. uint (weight b)) bs)
             (uint (m_maxWeight st)) (uint (m_gcdWeight st))
             (m_currentIndex st, uint (m_currentWeight st))
           = Some (i, uint (m_currentWeight st'))"
    by blast
  have "WRR_ChooseBackend bs st = Some (Some (address (bs ! i)), st')"
    using ne mx r(1) by (simp add: WRR_ChooseBackend_def)
  with r show ?thesis by blast
qed

lemma WRR_ChooseBackend_fallback:
  "WRR_ChooseBackend [] st = Some (None, st)"
  "bs \<noteq> [] \<Longrightarrow> m_maxWeight st = 0 \<Longrightarrow> WRR_ChooseBackend bs st = Some (Some (address (bs ! 0)), st)"
  by (simp_all add: WRR_ChooseBackend_def)

lemma gcd_heavy: "gcd (3221225472 :: nat) 2147483648 = 1073741824"
proof -
  have "gcd (1073741824 * 3) (1073741824 * 2) = 1073741824 * gcd (3 :: nat) 2"
    by (rule gcd_mult_distrib_nat[symmetric])
  moreover have "gcd (3 :: nat) 2 = 1"
    by (simp add: gcd_nat.simps[of 3 2] gcd_nat.simps[of 2 1] gcd_nat.simps[of 1 0])
  ultimately show ?thesis by simp
qed

lemma Recalculate_heavy:
  "RecalculateWrrState heavy_backends =
     \<lparr>m_currentIndex = 1, m_currentWeight = 0, m_maxWeight = 3221225472,
      m_gcdWeight = 1073741824\<rparr>"
  by (simp add: RecalculateWrrState_def heavy_backends_def gcd_heavy)

lemma wrr_loop_heavy_first:
  "wrr_loop heavy_backends
     \<lparr>m_currentIndex = 1, m_currentWeight = 0, m_maxWeight = 3221225472,
      m_gcdWeight = 1073741824\<rparr>
   = Some (Some 0, \<lparr>m_currentIndex = 0, m_currentWeight = 3221225472,
                     m_maxWeight = 3221225472, m_gcdWeight = 1073741824\<rparr>)"
  by (subst wrr_loop.simps) (simp add: heavy_backends_def Let_def)

lemma wrr_loop_heavy_next:
  "wrr_loop heavy_backends
     \<lparr>m_currentIndex = 0, m_currentWeight = 3221225472, m_maxWeight = 3221225472,
      m_gcdWeight = 1073741824\<rparr>
   = Some (Some 0, \<lparr>m_currentIndex = 0, m_currentWeight = 3221225472,
                     m_maxWeight = 3221225472, m_gcdWeight = 1073741824\<rparr>)"
  apply (subst wrr_loop.simps)
  apply (simp add: heavy_backends_def Let_def)
  apply (subst wrr_loop.simps)
  apply (simp add: heavy_backends_def Let_def)
  done

text \<open>
  Claim C7, at two backends of weights 3221225472 and 2147483648 (gcd 1073741824).
  After \<open>RecalculateWrrState\<close> the first call of \<open>ChooseBackend\<close> returns backend 0
  and leaves \<open>m_currentWeight\<close> at the maximum weight, which as an \<open>int32_t\<close> is
  negative. From then on every call returns backend 0 and leaves the state as it is:
  at each wrap of the index the marker less the gcd is 2147483648, negative as an
  \<open>int32_t\<close>, so it is reset to the maximum and backend 1 is never accepted. The
  selection as specified keeps the marker 2147483648, which is positive, and its third
  choice is backend 1.
\<close>

theorem WRR_large_weights_starve_backend:
  "WRR_ChooseBackend heavy_backends (RecalculateWrrState heavy_backends)
     = Some (Some \<lparr>ipv4 = 1, port = 80\<rparr>,
             \<lparr>m_currentIndex = 0, m_currentWeight = 3221225472, m_maxWeight = 3221225472,
              m_gcdWeight = 1073741824\<rparr>) \<and>
   WRR_ChooseBackend heavy_backends
       \<lparr>m_currentIndex = 0, m_currentWeight = 3221225472, m_maxWeight = 3221225472,
        m_gcdWeight = 1073741824\<rparr>
     = Some (Some \<lparr>ipv4 = 1, port = 80\<rparr>,
             \<lparr>m_currentIndex = 0, m_currentWeight = 3221225472, m_maxWeight = 3221225472,
              m_gcdWeight = 1073741824\<rparr>) \<and>
   smooth_wrr_spec 2 [3221225472, 2147483648] 3221225472 1073741824 (1, 0)
     = Some (0, 3221225472) \<and>
   smooth_wrr_spec 2 [3221225472, 2147483648] 3221225472 1073741824 (0, 3221225472)
     = Some (0, 2147483648) \<and>
   smooth_wrr_spec 2 [3221225472, 2147483648] 3221225472 1073741824 (0, 2147483648)
     = Some (1, 2147483648)"
proof -
  have ne: "heavy_backends \<noteq> []"
    and nth0: "address (heavy_backends ! 0) = \<lparr>ipv4 = 1, port = 80\<rparr>"
    by (simp_all add: heavy_backends_def)
  have a: "WRR_ChooseBackend heavy_backends (RecalculateWrrState heavy_backends)
     = Some (Some \<lparr>ipv4 = 1, port = 80\<rparr>,
             \<lparr>m_currentIndex = 0, m_currentWeight = 3221225472, m_maxWeight = 3221225472,
              m_gcdWeight = 1073741824\<rparr>)"
    unfolding WRR_ChooseBackend_def Recalculate_heavy wrr_loop_heavy_first
    using ne nth0 by simp
  have b: "WRR_ChooseBackend heavy_backends
       \<lparr>m_currentIndex = 0, m_currentWeight = 3221225472, m_maxWeight = 3221225472,
        m_gcdWeight = 1073741824\<rparr>
     = Some (Some \<lparr>ipv4 = 1, port = 80\<rparr>,
             \<lparr>m_currentIndex = 0, m_currentWeight = 3221225472, m_maxWeight = 3221225472,
              m_gcdWeight = 1073741824\<rparr>)"
    unfolding WRR_ChooseBackend_def wrr_loop_heavy_next
    using ne nth0 by simp
  have c: "smooth_wrr_spec 2 [3221225472, 2147483648] 3221225472 1073741824 (1, 0)
     = Some (0, 3221225472)"
    by (simp add: numeral_2_eq_2 Let_def)
  have d: "smooth_wrr_spec 2 [3221225472, 2147483648] 3221225472 1073741824 (0, 3221225472)
     = Some (0, 2147483648)"
    by (simp add: numeral_2_eq_2 Let_def)
  have e: "smooth_wrr_spec 2 [3221225472, 2147483648] 3221225472 1073741824 (0, 2147483648)
     = Some (1, 2147483648)"
    by (simp add: numeral_2_eq_2 Let_def)
  from a b c d e show ?thesis by blast
qed

end
